theory Spec2Isabelle
  imports Main
begin

section \<open>Data model\<close>

text \<open>
  A component is known to the service only through its identity (the interface value
  used as a map key and compared with \<open>==\<close>); the type variable \<open>'c\<close> stands for
  these identities. What a component does when its \<open>Start\<close> or \<open>Stop\<close> method is
  called is outside the service: it is given as a parameter. The outcome of a call
  (\<open>None\<close> for a nil error) may depend on everything the service has done to the
  components so far, which is the list of events.
\<close>

datatype ('c, 'e) event =
    StartCalled 'c "'e option"
  | StopCalled 'c "'e option"
  | Printed 'e

type_synonym ('c, 'e) world = "('c, 'e) event list"

record ('c, 'e) Component =
  Start :: "'c \<Rightarrow> ('c, 'e) world \<Rightarrow> 'e option"
  Stop :: "'c \<Rightarrow> ('c, 'e) world \<Rightarrow> 'e option"

text \<open>
  Errors: the two sentinel values of component.go, an error value that came out of a
  component, and \<open>errors.Wrap(err, msg)\<close>.
\<close>

datatype 'e error =
    alreadyRegisteredError
  | dependencyCycleError
  | ComponentError 'e
  | Wrap "'e error" string

text \<open>\<open>errors.Cause\<close>: the error under all the wrappers.\<close>

fun Cause :: "'e error \<Rightarrow> 'e error" where
  "Cause (Wrap err msg) = Cause err"
| "Cause err = err"

text \<open>
  cleanup.go. The only value of type \<open>Closer\<close> that the service ever pushes is the
  closure built in \<open>startComponent\<close>; it captures the component, and \<open>CloseFunc c\<close>
  stands for the closure that captured \<open>c\<close>.
\<close>

datatype 'c Closer = CloseFunc 'c

record 'c Function =
  Name :: string
  Action :: "'c Closer"

record 'c Stack =
  Functions :: "'c Function list"

record 'c Service =
  components :: "'c list"
  dependantComponents :: "'c \<rightharpoonup> 'c list"
  startedComponents :: "'c \<rightharpoonup> bool"
  closingStack :: "'c Stack"

section \<open>The closing stack (cleanup.go)\<close>

definition NewStack :: "'c Stack" where
  "NewStack = \<lparr>Functions = []\<rparr>"

definition push :: "'c Function \<Rightarrow> 'c Stack \<Rightarrow> 'c Stack" where
  "push f s = s\<lparr>Functions := Functions s @ [f]\<rparr>"

definition pop :: "'c Stack \<Rightarrow> 'c Function option \<times> 'c Stack" where
  "pop s =
     (if length (Functions s) > 0
      then (Some (Functions s ! (length (Functions s) - 1)),
            s\<lparr>Functions := take (length (Functions s) - 1) (Functions s)\<rparr>)
      else (None, s))"

definition Stack_Add :: "string \<Rightarrow> 'c Closer \<Rightarrow> 'c Stack \<Rightarrow> 'c Stack" where
  "Stack_Add name f s = push \<lparr>Name = name, Action = f\<rparr> s"

text \<open>
  Running the closure of \<open>startComponent\<close>: it calls the component's \<open>Stop\<close> and
  prints the error, if there is one. It returns nothing.
\<close>

fun Closer_Close :: "('c, 'e) Component \<Rightarrow> 'c Closer \<Rightarrow> ('c, 'e) world \<Rightarrow> ('c, 'e) world" where
  "Closer_Close I (CloseFunc component) w =
     (case Stop I component w of
        None \<Rightarrow> w @ [StopCalled component None]
      | Some err \<Rightarrow> w @ [StopCalled component (Some err), Printed err])"

function Stack_Close ::
  "('c, 'e) Component \<Rightarrow> 'c Stack \<Rightarrow> ('c, 'e) world \<Rightarrow> 'c Stack \<times> ('c, 'e) world" where
  "Stack_Close I s w =
     (case pop s of
        (None, s') \<Rightarrow> (s', w)
      | (Some i, s') \<Rightarrow> Stack_Close I s' (Closer_Close I (Action i) w))"
  by pat_completeness auto
termination
  by (relation "measure (\<lambda>(I, s, w). length (Functions s))")
     (auto simp: pop_def split: if_splits)

declare Stack_Close.simps [simp del]

section \<open>The service (component.go)\<close>

definition NewService :: "'c list \<Rightarrow> 'c Service" where
  "NewService cs =
     \<lparr>components = cs,
      dependantComponents = Map.empty,
      startedComponents = Map.empty,
      closingStack = NewStack\<rparr>"

text \<open>Reading a map of slices at a key: the nil slice when the key is absent.\<close>

definition slice_at :: "('c \<rightharpoonup> 'c list) \<Rightarrow> 'c \<Rightarrow> 'c list" where
  "slice_at m k = (case m k of None \<Rightarrow> [] | Some xs \<Rightarrow> xs)"

definition RegisterDependentComponents ::
  "'c \<Rightarrow> 'c \<Rightarrow> 'c Service \<Rightarrow> 'e error option \<times> 'c Service" where
  "RegisterDependentComponents a b s =
     (if (case dependantComponents s b of
            None \<Rightarrow> False
          | Some dependencies \<Rightarrow> a \<in> set dependencies)
      then (Some dependencyCycleError, s)
      else if (case dependantComponents s a of
                 None \<Rightarrow> False
               | Some existingDependencies \<Rightarrow> b \<in> set existingDependencies)
      then (Some alreadyRegisteredError, s)
      else (None,
            s\<lparr>dependantComponents :=
                (dependantComponents s)(a \<mapsto> slice_at (dependantComponents s) a @ [b])\<rparr>))"

definition checkForDependantComponents :: "'c Service \<Rightarrow> 'c \<Rightarrow> 'c list" where
  "checkForDependantComponents s componentToCheck =
     (case dependantComponents s componentToCheck of
        None \<Rightarrow> []
      | Some dependencies \<Rightarrow>
          filter (\<lambda>dependency. startedComponents s dependency = None) dependencies)"

text \<open>
  \<open>startComponent\<close> calls itself for every dependency, and nothing bounds the depth of
  these calls. The first argument after the components' behaviour is the number of
  nested calls that are still allowed; \<open>None\<close> says that this number was not enough.
  A call that needs more than any number is a call that does not return.
  \<open>startComponent_range\<close> is the loop over \<open>depComponents\<close>.
\<close>

type_synonym ('c, 'e) outcome = "('e error option \<times> 'c Service \<times> ('c, 'e) world) option"

fun startComponent ::
    "('c, 'e) Component \<Rightarrow> nat \<Rightarrow> 'c \<Rightarrow> 'c Service \<Rightarrow> ('c, 'e) world \<Rightarrow> ('c, 'e) outcome"
  and startComponent_range ::
    "('c, 'e) Component \<Rightarrow> nat \<Rightarrow> 'c list \<Rightarrow> 'c Service \<Rightarrow> ('c, 'e) world \<Rightarrow> ('c, 'e) outcome"
where
  "startComponent I 0 component s w = None"
| "startComponent I (Suc n) component s w =
     (if startedComponents s component \<noteq> None then Some (None, s, w)
      else
        (case startComponent_range I n (checkForDependantComponents s component) s w of
           None \<Rightarrow> None
         | Some (Some err, s1, w1) \<Rightarrow> Some (Some err, s1, w1)
         | Some (None, s1, w1) \<Rightarrow>
             (case Start I component w1 of
                Some err \<Rightarrow>
                  Some (Some (Wrap (ComponentError err) ''failed to start component''),
                        s1, w1 @ [StartCalled component (Some err)])
              | None \<Rightarrow>
                  Some (None,
                        s1\<lparr>closingStack :=
                             Stack_Add ''something'' (CloseFunc component) (closingStack s1),
                           startedComponents := (startedComponents s1)(component \<mapsto> True)\<rparr>,
                        w1 @ [StartCalled component None]))))"
| "startComponent_range I n [] s w = Some (None, s, w)"
| "startComponent_range I n (dependency # rest) s w =
     (case startComponent I n dependency s w of
        None \<Rightarrow> None
      | Some (Some err, s1, w1) \<Rightarrow> Some (Some (Wrap err ''failed to start component''), s1, w1)
      | Some (None, s1, w1) \<Rightarrow> startComponent_range I n rest s1 w1)"

text \<open>\<open>Service.Start\<close>: the same loop, over the list given to \<open>NewService\<close>.\<close>

fun Service_Start_range ::
  "('c, 'e) Component \<Rightarrow> nat \<Rightarrow> 'c list \<Rightarrow> 'c Service \<Rightarrow> ('c, 'e) world \<Rightarrow> ('c, 'e) outcome" where
  "Service_Start_range I n [] s w = Some (None, s, w)"
| "Service_Start_range I n (component # rest) s w =
     (case startComponent I n component s w of
        None \<Rightarrow> None
      | Some (Some err, s1, w1) \<Rightarrow> Some (Some (Wrap err ''failed to start component''), s1, w1)
      | Some (None, s1, w1) \<Rightarrow> Service_Start_range I n rest s1 w1)"

definition Service_Start ::
  "('c, 'e) Component \<Rightarrow> nat \<Rightarrow> 'c Service \<Rightarrow> ('c, 'e) world \<Rightarrow> ('c, 'e) outcome" where
  "Service_Start I n s w = Service_Start_range I n (components s) s w"

definition Service_Stop ::
  "('c, 'e) Component \<Rightarrow> 'c Service \<Rightarrow> ('c, 'e) world \<Rightarrow> 'c Service \<times> ('c, 'e) world" where
  "Service_Stop I s w =
     (case Stack_Close I (closingStack s) w of
        (st, w') \<Rightarrow> (s\<lparr>closingStack := st\<rparr>, w'))"

section \<open>Configuration and observation\<close>

text \<open>
  The configuration phase: a sequence of calls of \<open>RegisterDependentComponents\<close>, each
  on the service the call before left, whatever each call returns.
  \<open>RegisterAll_results\<close> lists what the calls return.
\<close>

fun RegisterAll :: "('c \<times> 'c) list \<Rightarrow> 'c Service \<Rightarrow> 'c Service" where
  "RegisterAll [] s = s"
| "RegisterAll ((a, b) # es) s =
     RegisterAll es (snd (RegisterDependentComponents a b s :: unit error option \<times> 'c Service))"

fun RegisterAll_results :: "('c \<times> 'c) list \<Rightarrow> 'c Service \<Rightarrow> unit error option list" where
  "RegisterAll_results [] s = []"
| "RegisterAll_results ((a, b) # es) s =
     fst (RegisterDependentComponents a b s) #
     RegisterAll_results es (snd (RegisterDependentComponents a b s :: unit error option \<times> 'c Service))"

text \<open>
  The edges of the cycle through a list of components: each depends on the next, the last
  on the first.
\<close>

definition cycle_edges :: "'c list \<Rightarrow> ('c \<times> 'c) list" where
  "cycle_edges xs = zip xs (rotate1 xs)"

text \<open>
  The dependency edges of a service: \<open>(a, b)\<close> when \<open>b\<close> is in the list stored for \<open>a\<close>.
\<close>

definition depRel :: "'c Service \<Rightarrow> ('c \<times> 'c) set" where
  "depRel s = {(a, b). b \<in> set (slice_at (dependantComponents s) a)}"

text \<open>
  What a list of events shows: the components whose \<open>Start\<close> was called
  (\<open>invoked\<close>), those whose \<open>Start\<close> returned nil (\<open>completed\<close>), those whose
  \<open>Stop\<close> was called (\<open>stopped\<close>), the errors that \<open>Stop\<close> calls returned and the
  errors that were printed, each in the order of the events.
\<close>

fun invoked :: "('c, 'e) world \<Rightarrow> 'c list" where
  "invoked [] = []"
| "invoked (StartCalled c r # w) = c # invoked w"
| "invoked (ev # w) = invoked w"

fun completed :: "('c, 'e) world \<Rightarrow> 'c list" where
  "completed [] = []"
| "completed (StartCalled c None # w) = c # completed w"
| "completed (ev # w) = completed w"

fun stopped :: "('c, 'e) world \<Rightarrow> 'c list" where
  "stopped [] = []"
| "stopped (StopCalled c r # w) = c # stopped w"
| "stopped (ev # w) = stopped w"

fun stop_errors :: "('c, 'e) world \<Rightarrow> 'e list" where
  "stop_errors [] = []"
| "stop_errors (StopCalled c (Some e) # w) = e # stop_errors w"
| "stop_errors (ev # w) = stop_errors w"

fun printed :: "('c, 'e) world \<Rightarrow> 'e list" where
  "printed [] = []"
| "printed (Printed e # w) = e # printed w"
| "printed (ev # w) = printed w"

definition succeeded :: "'c \<Rightarrow> ('c, 'e) event" where
  "succeeded c = StartCalled c None"

fun closer_component :: "'c Closer \<Rightarrow> 'c" where
  "closer_component (CloseFunc c) = c"

definition start_order :: "('c, 'e) outcome \<Rightarrow> ('e error option \<times> 'c list) option" where
  "start_order x = (case x of None \<Rightarrow> None | Some (r, s, w) \<Rightarrow> Some (r, invoked w))"

text \<open>
  The recursive start procedure in the words of the spec (section 4.2), as a second
  definition to compare \<open>startComponent\<close> with. It works on the list of components
  started so far: a component already in the list is left alone; otherwise its dependencies
  that are not yet started are taken in the order of their registration, and then the
  component is added. \<open>spec_start_each\<close> takes a list of components in its order. The
  depth of nested calls is bounded as in \<open>startComponent\<close>.
\<close>

fun spec_start :: "('c \<Rightarrow> 'c list) \<Rightarrow> nat \<Rightarrow> 'c \<Rightarrow> 'c list \<Rightarrow> 'c list option"
  and spec_start_each :: "('c \<Rightarrow> 'c list) \<Rightarrow> nat \<Rightarrow> 'c list \<Rightarrow> 'c list \<Rightarrow> 'c list option"
where
  "spec_start D 0 c started = None"
| "spec_start D (Suc n) c started =
     (if c \<in> set started then Some started
      else
        (case spec_start_each D n (filter (\<lambda>d. d \<notin> set started) (D c)) started of
           None \<Rightarrow> None
         | Some started' \<Rightarrow> Some (started' @ [c])))"
| "spec_start_each D n [] started = Some started"
| "spec_start_each D n (c # cs) started =
     (case spec_start D n c started of
        None \<Rightarrow> None
      | Some started' \<Rightarrow> spec_start_each D n cs started')"

text \<open>
  The invariant of a service and its events. The actions on the closing stack are the
  closures of the components that completed \<open>Start\<close>, in that order; these are the keys
  of \<open>startedComponents\<close>, each marked true and none twice; and every one of them comes
  after all its dependencies (\<open>ordered\<close>).
\<close>

definition ordered :: "('c \<Rightarrow> 'c list) \<Rightarrow> 'c list \<Rightarrow> bool" where
  "ordered D xs \<longleftrightarrow> (\<forall>ys a zs. xs = ys @ a # zs \<longrightarrow> set (D a) \<subseteq> set ys)"

definition Inv :: "'c Service \<Rightarrow> ('c, 'e) world \<Rightarrow> bool" where
  "Inv s w \<longleftrightarrow>
     map Action (Functions (closingStack s)) = map CloseFunc (completed w) \<and>
     dom (startedComponents s) = set (completed w) \<and>
     (\<forall>c v. startedComponents s c = Some v \<longrightarrow> v) \<and>
     distinct (completed w) \<and>
     ordered (slice_at (dependantComponents s)) (completed w)"

text \<open>
  What one call adds to the events: \<open>trail\<close> relates the components completed before
  and after, \<open>shape\<close> says that the new events are successful starts, followed by one
  failed start exactly when an error is returned.
\<close>

definition trail ::
  "'c Service \<Rightarrow> ('c, 'e) world \<Rightarrow> 'e error option \<Rightarrow> ('c, 'e) world \<Rightarrow> 'c list \<Rightarrow> bool" where
  "trail s w r w' ys \<longleftrightarrow>
     completed w' = completed w @ ys \<and>
     (r \<noteq> None \<longrightarrow>
        (\<exists>w1 x e. w' = w1 @ [StartCalled x (Some e)] \<and> x \<notin> set (completed w') \<and>
           set (slice_at (dependantComponents s) x) \<subseteq> set (completed w')))"

definition shape ::
  "('c, 'e) Component \<Rightarrow> ('c, 'e) world \<Rightarrow> 'e error option \<Rightarrow> ('c, 'e) world \<Rightarrow> bool" where
  "shape I w r w' \<longleftrightarrow>
     (\<exists>ys. case r of
        None \<Rightarrow> w' = w @ map succeeded ys
      | Some err \<Rightarrow>
          (\<exists>x e. w' = w @ map succeeded ys @ [StartCalled x (Some e)] \<and>
                 Start I x (w @ map succeeded ys) = Some e \<and>
                 Cause err = ComponentError e \<and> err \<noteq> ComponentError e))"

text \<open>
  Services and components for the examples: the diamond of the tests (\<open>0\<close> depends on
  \<open>1\<close> and \<open>2\<close>, \<open>1\<close> depends on \<open>2\<close>), components that never fail, and components
  of which one fails in \<open>Start\<close> and in \<open>Stop\<close>.
\<close>

definition always_ok :: "(nat, string) Component" where
  "always_ok = \<lparr>Start = (\<lambda>c w. None), Stop = (\<lambda>c w. None)\<rparr>"

definition failing :: "nat \<Rightarrow> (nat, string) Component" where
  "failing x =
     \<lparr>Start = (\<lambda>c w. if c = x then Some ''refused'' else None),
      Stop = (\<lambda>c w. if c = x then Some ''stuck'' else None)\<rparr>"

definition diamond :: "nat Service" where
  "diamond = RegisterAll [(0, 1), (0, 2), (1, 2)] (NewService [0, 1, 2])"

definition diamond_started :: "nat Service" where
  "diamond_started =
     \<lparr>components = [0, 1, 2], dependantComponents = [0 \<mapsto> [1, 2], 1 \<mapsto> [2]],
      startedComponents = [2 \<mapsto> True, 1 \<mapsto> True, 0 \<mapsto> True],
      closingStack = \<lparr>Functions = [\<lparr>Name = ''something'', Action = CloseFunc 2\<rparr>,
        \<lparr>Name = ''something'', Action = CloseFunc 1\<rparr>,
        \<lparr>Name = ''something'', Action = CloseFunc 0\<rparr>]\<rparr>\<rparr>"

definition diamond_starts :: "(nat, string) world" where
  "diamond_starts = [StartCalled 2 None, StartCalled 1 None, StartCalled 0 None]"

definition diamond_failed :: "nat Service" where
  "diamond_failed =
     \<lparr>components = [0, 1, 2], dependantComponents = [0 \<mapsto> [1, 2], 1 \<mapsto> [2]],
      startedComponents = [2 \<mapsto> True],
      closingStack = \<lparr>Functions = [\<lparr>Name = ''something'', Action = CloseFunc 2\<rparr>]\<rparr>\<rparr>"

section \<open>Lemmas\<close>

subsection \<open>Events\<close>

lemma completed_append [simp]: "completed (w @ w') = completed w @ completed w'"
  by (induction w rule: completed.induct) auto

lemma invoked_append [simp]: "invoked (w @ w') = invoked w @ invoked w'"
  by (induction w rule: invoked.induct) auto

lemma stopped_append [simp]: "stopped (w @ w') = stopped w @ stopped w'"
  by (induction w rule: stopped.induct) auto

lemma stop_errors_append [simp]: "stop_errors (w @ w') = stop_errors w @ stop_errors w'"
  by (induction w rule: stop_errors.induct) auto

lemma printed_append [simp]: "printed (w @ w') = printed w @ printed w'"
  by (induction w rule: printed.induct) auto

lemma completed_succeeded [simp]: "completed (map succeeded ys) = ys"
  by (induction ys) (auto simp: succeeded_def)

lemma invoked_succeeded [simp]: "invoked (map succeeded ys) = ys"
  by (induction ys) (auto simp: succeeded_def)

lemma stopped_succeeded [simp]: "stopped (map succeeded ys) = []"
  by (induction ys) (auto simp: succeeded_def)


lemma distinct_count_list:
  "distinct xs \<Longrightarrow> count_list xs x = (if x \<in> set xs then 1 else 0)"
  by (induction xs) auto

subsection \<open>Order of dependencies\<close>

lemma ordered_Nil [simp]: "ordered D []"
  by (simp add: ordered_def)

lemma ordered_snoc: "ordered D (xs @ [c]) \<longleftrightarrow> ordered D xs \<and> set (D c) \<subseteq> set xs"
proof
  assume L: "ordered D (xs @ [c])"
  have "ordered D xs"
    unfolding ordered_def
  proof (intro allI impI)
    fix ys a zs assume "xs = ys @ a # zs"
    then have "xs @ [c] = ys @ a # (zs @ [c])" by simp
    with L show "set (D a) \<subseteq> set ys" unfolding ordered_def by blast
  qed
  moreover have "set (D c) \<subseteq> set xs"
    using L unfolding ordered_def by (metis append_Nil2 append_assoc append_Cons)
  ultimately show "ordered D xs \<and> set (D c) \<subseteq> set xs" ..
next
  assume R: "ordered D xs \<and> set (D c) \<subseteq> set xs"
  show "ordered D (xs @ [c])"
    unfolding ordered_def
  proof (intro allI impI)
    fix ys a zs assume eq: "xs @ [c] = ys @ a # zs"
    show "set (D a) \<subseteq> set ys"
    proof (cases zs rule: rev_cases)
      case Nil
      with eq have "xs = ys" "a = c" by auto
      with R show ?thesis by simp
    next
      case (snoc zs' z)
      with eq have "xs = ys @ a # zs'" by auto
      with R show ?thesis unfolding ordered_def by blast
    qed
  qed
qed

lemma ordered_by_events:
  assumes ord: "ordered D ys"
    and eq: "map succeeded ys = pre @ StartCalled a ra # post"
  shows "set (D a) \<subseteq> set (completed pre)"
proof -
  from eq obtain ys1 ys2 where ys: "ys = ys1 @ ys2" and pre: "pre = map succeeded ys1"
    and rest: "StartCalled a ra # post = map succeeded ys2"
    by (auto simp: map_eq_append_conv)
  from rest obtain ys3 where "ys2 = a # ys3" by (cases ys2) (auto simp: succeeded_def)
  with ys ord have "set (D a) \<subseteq> set ys1" unfolding ordered_def by blast
  with pre show ?thesis by simp
qed

lemma three_in_order:
  assumes d: "distinct xs" and s: "set xs = {a, b, c}" and abc: "distinct [a, b, c]"
    and ord: "ordered D xs" and Da: "D a = [b]" and Db: "D b = [c]"
  shows "xs = [c, b, a]"
proof -
  from d s abc have "length xs = 3" by (simp add: distinct_card [symmetric])
  then obtain x y z where xs: "xs = [x, y, z]"
    by (auto simp: eval_nat_numeral length_Suc_conv)
  from ord xs have 1: "set (D x) \<subseteq> {}" unfolding ordered_def by (metis append_Nil set_empty2 subset_refl empty_set)
  from ord xs have 2: "set (D y) \<subseteq> {x}" unfolding ordered_def
    by (metis append_Cons append_Nil list.simps(15) empty_set)
  from 1 Da Db have "x \<noteq> a" "x \<noteq> b" by auto
  with s xs have x: "x = c" by auto
  from 2 Da x abc have "y \<noteq> a" by auto
  with s xs x d have y: "y = b" by auto
  with s xs x d abc have "z = a" by auto
  with x y xs show ?thesis by simp
qed

subsection \<open>The recursion of startComponent\<close>

lemma startComponent_SucE:
  assumes "startComponent I (Suc n) c s w = Some (r, s', w')"
  obtains
    (skip) "startedComponents s c \<noteq> None" "r = None" "s' = s" "w' = w"
  | (dep_failed) err where "startedComponents s c = None" "r = Some err"
      "startComponent_range I n (checkForDependantComponents s c) s w = Some (Some err, s', w')"
  | (start_failed) s1 w1 e where "startedComponents s c = None"
      "startComponent_range I n (checkForDependantComponents s c) s w = Some (None, s1, w1)"
      "Start I c w1 = Some e" "r = Some (Wrap (ComponentError e) ''failed to start component'')"
      "s' = s1" "w' = w1 @ [StartCalled c (Some e)]"
  | (started) s1 w1 where "startedComponents s c = None"
      "startComponent_range I n (checkForDependantComponents s c) s w = Some (None, s1, w1)"
      "Start I c w1 = None" "r = None"
      "s' = s1\<lparr>closingStack := Stack_Add ''something'' (CloseFunc c) (closingStack s1),
                startedComponents := (startedComponents s1)(c \<mapsto> True)\<rparr>"
      "w' = w1 @ [StartCalled c None]"
  using assms by (auto split: if_splits option.splits prod.splits)

lemma startComponent_range_ConsE:
  assumes "startComponent_range I n (d # ds) s w = Some (r, s', w')"
  obtains
    (failed) err where "startComponent I n d s w = Some (Some err, s', w')"
      "r = Some (Wrap err ''failed to start component'')"
  | (continued) s1 w1 where "startComponent I n d s w = Some (None, s1, w1)"
      "startComponent_range I n ds s1 w1 = Some (r, s', w')"
  using assms by (auto split: option.splits prod.splits)

declare startComponent.simps(2) [simp del] startComponent_range.simps(2) [simp del]

lemma start_induct [case_names zero call nil cons]:
  assumes "\<And>I c s w. P I 0 c s w"
    and "\<And>I n c s w.
           (startedComponents s c = None \<Longrightarrow> Q I n (checkForDependantComponents s c) s w)
           \<Longrightarrow> P I (Suc n) c s w"
    and "\<And>I n s w. Q I n [] s w"
    and "\<And>I n d ds s w.
           P I n d s w \<Longrightarrow>
           (\<And>s1 w1. startComponent I n d s w = Some (None, s1, w1) \<Longrightarrow> Q I n ds s1 w1)
           \<Longrightarrow> Q I n (d # ds) s w"
  shows "P I n c s w" and "Q I n cs s w"
proof (induction I n c s w and I n cs s w rule: startComponent_startComponent_range.induct)
  case (1 I component s w)
  show ?case by (rule assms(1))
next
  case (2 I n component s w)
  show ?case by (rule assms(2)) (simp add: 2)
next
  case (3 I n s w)
  show ?case by (rule assms(3))
next
  case (4 I n dependency rest s w)
  show ?case
  proof (rule assms(4))
    show "P I n dependency s w" by (rule 4(1))
  next
    fix s1 w1 assume "startComponent I n dependency s w = Some (None, s1, w1)"
    then show "Q I n rest s1 w1" by (rule 4(2) [OF _ refl refl refl])
  qed
qed

lemma Service_Start_range_eq:
  "Service_Start_range I n cs s w = startComponent_range I n cs s w"
  by (induction cs arbitrary: s w)
     (auto simp: startComponent_range.simps(2) split: option.splits)

lemma frame:
  "\<forall>r s' w'. startComponent I n c s w = Some (r, s', w') \<longrightarrow>
     dependantComponents s' = dependantComponents s \<and> components s' = components s"
  "\<forall>r s' w'. startComponent_range I n cs s w = Some (r, s', w') \<longrightarrow>
     dependantComponents s' = dependantComponents s \<and> components s' = components s"
proof (induction I n c s w and I n cs s w rule: start_induct)
  case (zero I c s w)
  show ?case by simp
next
  case (call I n c s w)
  show ?case
  proof (intro allI impI)
    fix r s' w' assume "startComponent I (Suc n) c s w = Some (r, s', w')"
    then show "dependantComponents s' = dependantComponents s \<and> components s' = components s"
    proof (cases rule: startComponent_SucE)
      case skip
      then show ?thesis by simp
    next
      case (dep_failed err)
      with call show ?thesis by blast
    next
      case (start_failed s1 w1 e)
      with call show ?thesis by blast
    next
      case (started s1 w1)
      with call have "dependantComponents s1 = dependantComponents s \<and> components s1 = components s"
        by blast
      with started show ?thesis by simp
    qed
  qed
next
  case (nil I n s w)
  show ?case by simp
next
  case (cons I n d ds s w)
  show ?case
  proof (intro allI impI)
    fix r s' w' assume "startComponent_range I n (d # ds) s w = Some (r, s', w')"
    then show "dependantComponents s' = dependantComponents s \<and> components s' = components s"
    proof (cases rule: startComponent_range_ConsE)
      case (failed err)
      with cons(1) show ?thesis by blast
    next
      case (continued s1 w1)
      from cons(1) continued(1)
      have a: "dependantComponents s1 = dependantComponents s \<and> components s1 = components s"
        by blast
      from cons(2) [OF continued(1)] continued(2)
      have "dependantComponents s' = dependantComponents s1 \<and> components s' = components s1"
        by blast
      with a show ?thesis by simp
    qed
  qed
qed

lemma set_checkForDependantComponents:
  "set (checkForDependantComponents s c) =
     {x \<in> set (slice_at (dependantComponents s) c). startedComponents s x = None}"
  by (auto simp: checkForDependantComponents_def slice_at_def split: option.splits)

lemma depRel_frame: "dependantComponents s' = dependantComponents s \<Longrightarrow> depRel s' = depRel s"
  by (simp add: depRel_def)

lemma more_fuel:
  "\<forall>x m. startComponent I n c s w = Some x \<longrightarrow> n \<le> m \<longrightarrow> startComponent I m c s w = Some x"
  "\<forall>x m. startComponent_range I n cs s w = Some x \<longrightarrow> n \<le> m \<longrightarrow>
     startComponent_range I m cs s w = Some x"
proof (induction I n c s w and I n cs s w rule: start_induct)
  case (zero I c s w)
  show ?case by simp
next
  case (call I n c s w)
  show ?case
  proof (intro allI impI)
    fix x m assume run: "startComponent I (Suc n) c s w = Some x" and le: "Suc n \<le> m"
    then obtain k where m: "m = Suc k" and k: "n \<le> k" by (cases m) auto
    show "startComponent I m c s w = Some x"
    proof (cases "startedComponents s c = None")
      case False
      with run m show ?thesis by (simp add: startComponent.simps(2))
    next
      case True
      with run obtain y where y: "startComponent_range I n (checkForDependantComponents s c) s w = Some y"
        by (auto simp: startComponent.simps(2) split: option.splits)
      with call True k have "startComponent_range I k (checkForDependantComponents s c) s w = Some y"
        by blast
      with run y True m show ?thesis by (simp add: startComponent.simps(2))
    qed
  qed
next
  case (nil I n s w)
  show ?case by simp
next
  case (cons I n d ds s w)
  show ?case
  proof (intro allI impI)
    fix x m assume run: "startComponent_range I n (d # ds) s w = Some x" and le: "n \<le> m"
    then obtain y where y: "startComponent I n d s w = Some y"
      by (auto simp: startComponent_range.simps(2) split: option.splits)
    with cons(1) le have y': "startComponent I m d s w = Some y" by blast
    obtain r s1 w1 where yy: "y = (r, s1, w1)" by (cases y)
    show "startComponent_range I m (d # ds) s w = Some x"
    proof (cases r)
      case None
      with run y yy have "startComponent_range I n ds s1 w1 = Some x"
        by (simp add: startComponent_range.simps(2))
      with cons(2) y yy None le have "startComponent_range I m ds s1 w1 = Some x" by blast
      with y' yy None show ?thesis by (simp add: startComponent_range.simps(2))
    next
      case (Some err)
      with run y y' yy show ?thesis by (simp add: startComponent_range.simps(2))
    qed
  qed
qed

lemma more_fuel_Service_Start:
  "Service_Start I n s w = Some x \<Longrightarrow> n \<le> m \<Longrightarrow> Service_Start I m s w = Some x"
  using more_fuel(2) [rule_format, of I n "components s" s w x m]
  by (simp add: Service_Start_def Service_Start_range_eq)

subsection \<open>The invariant\<close>

lemma not_restarted:
  assumes inv: "Inv s1 w1"
    and app: "completed w1 = completed w @ ys"
    and lst: "ys = [] \<or> last ys \<in> set ds"
    and sub: "set ds \<subseteq> set (slice_at (dependantComponents s1) c)"
    and new: "c \<notin> set (completed w)"
  shows "c \<notin> set (completed w1)"
proof
  assume "c \<in> set (completed w1)"
  with app new have "c \<in> set ys" by simp
  then obtain pre post where ys: "ys = pre @ c # post"
    by (auto simp: in_set_conv_decomp)
  with lst have "last (c # post) \<in> set ds" by simp
  with sub have d: "last (c # post) \<in> set (slice_at (dependantComponents s1) c)" by blast
  from app ys have dec: "completed w1 = (completed w @ pre) @ c # post" by simp
  with inv have "set (slice_at (dependantComponents s1) c) \<subseteq> set (completed w @ pre)"
    unfolding Inv_def ordered_def by blast
  with d have 1: "last (c # post) \<in> set (completed w @ pre)" by blast
  have 2: "last (c # post) \<in> set (c # post)" by (rule last_in_set) simp
  from inv dec have "distinct ((completed w @ pre) @ c # post)" by (simp add: Inv_def)
  then have "set (completed w @ pre) \<inter> set (c # post) = {}" by (simp only: distinct_append)
  with 1 2 show False by blast
qed

lemma started_dependencies:
  assumes inv: "Inv s w"
    and app: "completed w1 = completed w @ ys"
    and sub: "set (checkForDependantComponents s c) \<subseteq> set (completed w1)"
  shows "set (slice_at (dependantComponents s) c) \<subseteq> set (completed w1)"
proof
  fix x assume x: "x \<in> set (slice_at (dependantComponents s) c)"
  show "x \<in> set (completed w1)"
  proof (cases "startedComponents s x = None")
    case True
    with x have "x \<in> set (checkForDependantComponents s c)"
      by (simp add: set_checkForDependantComponents)
    with sub show ?thesis by blast
  next
    case False
    with inv have "x \<in> set (completed w)" by (auto simp: Inv_def)
    with app show ?thesis by simp
  qed
qed

lemma invariant:
  "\<forall>r s' w'. Inv s w \<longrightarrow> startComponent I n c s w = Some (r, s', w') \<longrightarrow>
     Inv s' w' \<and>
     (\<exists>ys. trail s w r w' ys \<and>
        (r = None \<longrightarrow> (if c \<in> set (completed w) then ys = [] else ys \<noteq> [] \<and> last ys = c)))"
  "\<forall>r s' w'. Inv s w \<longrightarrow> startComponent_range I n cs s w = Some (r, s', w') \<longrightarrow>
     Inv s' w' \<and>
     (\<exists>ys. trail s w r w' ys \<and>
        (r = None \<longrightarrow> set cs \<subseteq> set (completed w') \<and> (ys = [] \<or> last ys \<in> set cs)))"
proof (induction I n c s w and I n cs s w rule: start_induct)
  case (zero I c s w)
  show ?case by simp
next
  case (call I n c s w)
  show ?case
  proof (intro allI impI)
    fix r s' w'
    assume inv: "Inv s w" and run: "startComponent I (Suc n) c s w = Some (r, s', w')"
    let ?ds = "checkForDependantComponents s c"
    from run show "Inv s' w' \<and>
     (\<exists>ys. trail s w r w' ys \<and>
        (r = None \<longrightarrow> (if c \<in> set (completed w) then ys = [] else ys \<noteq> [] \<and> last ys = c)))"
    proof (cases rule: startComponent_SucE)
      case skip
      from skip(1) inv have "c \<in> set (completed w)" by (auto simp: Inv_def)
      with skip inv show ?thesis by (auto simp: trail_def)
    next
      case (dep_failed err)
      with call inv have "Inv s' w' \<and> (\<exists>ys. trail s w r w' ys)" by blast
      with dep_failed show ?thesis by simp
    next
      case (start_failed s1 w1 e)
      with call inv obtain ys where 1: "Inv s1 w1" and 2: "trail s w None w1 ys"
        and 3: "set ?ds \<subseteq> set (completed w1)" and 4: "ys = [] \<or> last ys \<in> set ?ds"
        by blast
      from frame(2) [rule_format, OF start_failed(2)]
      have D: "dependantComponents s1 = dependantComponents s" by simp
      from start_failed(1) inv have new: "c \<notin> set (completed w)" by (auto simp: Inv_def)
      from 2 have app: "completed w1 = completed w @ ys" by (simp add: trail_def)
      have fresh: "c \<notin> set (completed w1)"
      proof (rule not_restarted [OF 1 app 4 _ new])
        show "set ?ds \<subseteq> set (slice_at (dependantComponents s1) c)"
          by (auto simp: set_checkForDependantComponents D)
      qed
      have deps: "set (slice_at (dependantComponents s) c) \<subseteq> set (completed w1)"
        by (rule started_dependencies [OF inv app 3])
      have "Inv s' w'"
        using 1 start_failed(5,6) by (auto simp: Inv_def)
      moreover have "trail s w r w' ys"
        using app fresh deps start_failed(4,6) by (simp add: trail_def)
      ultimately show ?thesis using start_failed(4) by auto
    next
      case (started s1 w1)
      with call inv obtain ys where 1: "Inv s1 w1" and 2: "trail s w None w1 ys"
        and 3: "set ?ds \<subseteq> set (completed w1)" and 4: "ys = [] \<or> last ys \<in> set ?ds"
        by blast
      from frame(2) [rule_format, OF started(2)]
      have D: "dependantComponents s1 = dependantComponents s" by simp
      from started(1) inv have new: "c \<notin> set (completed w)" by (auto simp: Inv_def)
      from 2 have app: "completed w1 = completed w @ ys" by (simp add: trail_def)
      have fresh: "c \<notin> set (completed w1)"
      proof (rule not_restarted [OF 1 app 4 _ new])
        show "set ?ds \<subseteq> set (slice_at (dependantComponents s1) c)"
          by (auto simp: set_checkForDependantComponents D)
      qed
      have deps: "set (slice_at (dependantComponents s) c) \<subseteq> set (completed w1)"
        by (rule started_dependencies [OF inv app 3])
      have "Inv s' w'"
        using 1 fresh deps started(5,6) D
        by (auto simp: Inv_def Stack_Add_def push_def ordered_snoc)
      moreover have "trail s w r w' (ys @ [c])"
        using app started(4,6) by (simp add: trail_def)
      ultimately show ?thesis using new started(4) by auto
    qed
  qed
next
  case (nil I n s w)
  show ?case by (simp add: trail_def)
next
  case (cons I n d ds s w)
  show ?case
  proof (intro allI impI)
    fix r s' w'
    assume inv: "Inv s w" and run: "startComponent_range I n (d # ds) s w = Some (r, s', w')"
    from run show "Inv s' w' \<and>
     (\<exists>ys. trail s w r w' ys \<and>
        (r = None \<longrightarrow> set (d # ds) \<subseteq> set (completed w') \<and> (ys = [] \<or> last ys \<in> set (d # ds))))"
    proof (cases rule: startComponent_range_ConsE)
      case (failed err)
      with cons(1) inv have "Inv s' w' \<and> (\<exists>ys. trail s w (Some err) w' ys)" by blast
      with failed show ?thesis by (auto simp: trail_def)
    next
      case (continued s1 w1)
      with cons(1) inv obtain ys where 1: "Inv s1 w1" and 2: "trail s w None w1 ys"
        and 3: "if d \<in> set (completed w) then ys = [] else ys \<noteq> [] \<and> last ys = d"
        by blast
      from cons(2) [OF continued(1)] 1 continued(2) obtain zs where 5: "Inv s' w'"
        and 6: "trail s1 w1 r w' zs"
        and 7: "r = None \<longrightarrow> set ds \<subseteq> set (completed w') \<and> (zs = [] \<or> last zs \<in> set ds)"
        by blast
      from frame(1) [rule_format, OF continued(1)]
      have D: "dependantComponents s1 = dependantComponents s" by simp
      from 2 6 D have 8: "trail s w r w' (ys @ zs)" by (auto simp: trail_def)
      have "r = None \<longrightarrow> set (d # ds) \<subseteq> set (completed w') \<and>
              (ys @ zs = [] \<or> last (ys @ zs) \<in> set (d # ds))"
      proof
        assume r: "r = None"
        from 2 3 have "d \<in> set (completed w1)" by (auto simp: trail_def split: if_splits)
        with 6 have "d \<in> set (completed w')" by (simp add: trail_def)
        moreover from 3 7 r have "ys @ zs = [] \<or> last (ys @ zs) \<in> set (d # ds)"
          by (cases "zs = []") (auto split: if_splits)
        ultimately show "set (d # ds) \<subseteq> set (completed w') \<and>
              (ys @ zs = [] \<or> last (ys @ zs) \<in> set (d # ds))" using 7 r by simp
      qed
      with 5 8 show ?thesis by blast
    qed
  qed
qed

lemma Inv_closed:
  assumes "Inv s w" and "a \<in> set (completed w)" and "(a, b) \<in> (depRel s)\<^sup>*"
  shows "b \<in> set (completed w)"
  using assms(3,2)
proof (induction rule: rtrancl_induct)
  case base
  then show ?case .
next
  case (step y z)
  then have "y \<in> set (completed w)" by simp
  then obtain pre post where "completed w = pre @ y # post"
    by (auto simp: in_set_conv_decomp)
  with assms(1) have "set (slice_at (dependantComponents s) y) \<subseteq> set pre"
    unfolding Inv_def ordered_def by blast
  with step(2) \<open>completed w = pre @ y # post\<close> show ?case by (auto simp: depRel_def)
qed

subsection \<open>The events of a call\<close>

lemma shape_refl: "shape I w None w"
  unfolding shape_def by (rule exI [of _ "[]"]) simp

lemma shape_trans: "shape I w None w1 \<Longrightarrow> shape I w1 r w' \<Longrightarrow> shape I w r w'"
proof -
  assume "shape I w None w1" and 2: "shape I w1 r w'"
  then obtain ys where ys: "w1 = w @ map succeeded ys" by (auto simp: shape_def)
  show ?thesis
  proof (cases r)
    case None
    with 2 obtain zs where "w' = w1 @ map succeeded zs" by (auto simp: shape_def)
    with ys have "w' = w @ map succeeded (ys @ zs)" by simp
    with None show ?thesis unfolding shape_def by (auto intro: exI [of _ "ys @ zs"])
  next
    case (Some err)
    with 2 obtain zs x e where "w' = w1 @ map succeeded zs @ [StartCalled x (Some e)]"
      "Start I x (w1 @ map succeeded zs) = Some e" "Cause err = ComponentError e"
      "err \<noteq> ComponentError e" by (auto simp: shape_def)
    with ys have "w' = w @ map succeeded (ys @ zs) @ [StartCalled x (Some e)] \<and>
      Start I x (w @ map succeeded (ys @ zs)) = Some e \<and> Cause err = ComponentError e \<and>
      err \<noteq> ComponentError e" by simp
    with Some show ?thesis unfolding shape_def by (auto intro!: exI [of _ "ys @ zs"])
  qed
qed

lemma shape_wrap: "shape I w (Some err) w' \<Longrightarrow> shape I w (Some (Wrap err m)) w'"
  unfolding shape_def by auto

lemma outcome_shape:
  "\<forall>r s' w'. startComponent I n c s w = Some (r, s', w') \<longrightarrow> shape I w r w'"
  "\<forall>r s' w'. startComponent_range I n cs s w = Some (r, s', w') \<longrightarrow> shape I w r w'"
proof (induction I n c s w and I n cs s w rule: start_induct)
  case (zero I c s w)
  show ?case by simp
next
  case (call I n c s w)
  show ?case
  proof (intro allI impI)
    fix r s' w' assume "startComponent I (Suc n) c s w = Some (r, s', w')"
    then show "shape I w r w'"
    proof (cases rule: startComponent_SucE)
      case skip
      then show ?thesis by (simp add: shape_refl)
    next
      case (dep_failed err)
      with call show ?thesis by blast
    next
      case (start_failed s1 w1 e)
      with call have 1: "shape I w None w1" by blast
      have "shape I w1 r w'"
        unfolding shape_def using start_failed(3,4,6) by (auto intro!: exI [of _ "[]"])
      with 1 show ?thesis by (rule shape_trans)
    next
      case (started s1 w1)
      with call have 1: "shape I w None w1" by blast
      have "shape I w1 r w'"
        unfolding shape_def using started(4,6) by (auto intro!: exI [of _ "[c]"] simp: succeeded_def)
      with 1 show ?thesis by (rule shape_trans)
    qed
  qed
next
  case (nil I n s w)
  show ?case by (simp add: shape_refl)
next
  case (cons I n d ds s w)
  show ?case
  proof (intro allI impI)
    fix r s' w' assume "startComponent_range I n (d # ds) s w = Some (r, s', w')"
    then show "shape I w r w'"
    proof (cases rule: startComponent_range_ConsE)
      case (failed err)
      with cons(1) have "shape I w (Some err) w'" by blast
      with failed show ?thesis by (simp add: shape_wrap)
    next
      case (continued s1 w1)
      with cons(1) have 1: "shape I w None w1" by blast
      from cons(2) [OF continued(1)] continued(2) have "shape I w1 r w'" by blast
      with 1 show ?thesis by (rule shape_trans)
    qed
  qed
qed

lemma shape_success: "shape I [] None w' \<Longrightarrow> invoked w' = completed w'"
  by (auto simp: shape_def)

lemma shape_failure:
  assumes "shape I [] (Some err) w'"
  obtains ys x e where "w' = map succeeded ys @ [StartCalled x (Some e)]"
    "Start I x (map succeeded ys) = Some e" "Cause err = ComponentError e" "err \<noteq> ComponentError e"
  using assms by (auto simp: shape_def)

lemma shape_stopped: "shape I [] r w' \<Longrightarrow> stopped w' = []"
  by (cases r) (auto simp: shape_def)

lemma within_reach:
  "\<forall>r s' w'. startComponent I n c s w = Some (r, s', w') \<longrightarrow>
     (\<exists>zs. invoked w' = invoked w @ zs \<and> set zs \<subseteq> (depRel s)\<^sup>* `` {c})"
  "\<forall>r s' w'. startComponent_range I n cs s w = Some (r, s', w') \<longrightarrow>
     (\<exists>zs. invoked w' = invoked w @ zs \<and> set zs \<subseteq> (depRel s)\<^sup>* `` set cs)"
proof (induction I n c s w and I n cs s w rule: start_induct)
  case (zero I c s w)
  show ?case by simp
next
  case (call I n c s w)
  let ?ds = "checkForDependantComponents s c"
  have step: "(depRel s)\<^sup>* `` set ?ds \<subseteq> (depRel s)\<^sup>* `` {c}"
  proof
    fix x assume "x \<in> (depRel s)\<^sup>* `` set ?ds"
    then obtain d where d: "d \<in> set ?ds" "(d, x) \<in> (depRel s)\<^sup>*" by blast
    from d(1) have "(c, d) \<in> depRel s"
      by (simp add: set_checkForDependantComponents depRel_def)
    with d(2) show "x \<in> (depRel s)\<^sup>* `` {c}" by (auto intro: converse_rtrancl_into_rtrancl)
  qed
  show ?case
  proof (intro allI impI)
    fix r s' w' assume "startComponent I (Suc n) c s w = Some (r, s', w')"
    then show "\<exists>zs. invoked w' = invoked w @ zs \<and> set zs \<subseteq> (depRel s)\<^sup>* `` {c}"
    proof (cases rule: startComponent_SucE)
      case skip
      then show ?thesis by simp
    next
      case (dep_failed err)
      with call obtain zs where "invoked w' = invoked w @ zs" "set zs \<subseteq> (depRel s)\<^sup>* `` set ?ds"
        by blast
      with step show ?thesis by blast
    next
      case (start_failed s1 w1 e)
      with call obtain zs where zs: "invoked w1 = invoked w @ zs" "set zs \<subseteq> (depRel s)\<^sup>* `` set ?ds"
        by blast
      with start_failed(6) have "invoked w' = invoked w @ (zs @ [c])" by simp
      moreover from zs(2) step have "set (zs @ [c]) \<subseteq> (depRel s)\<^sup>* `` {c}" by auto
      ultimately show ?thesis by blast
    next
      case (started s1 w1)
      with call obtain zs where zs: "invoked w1 = invoked w @ zs" "set zs \<subseteq> (depRel s)\<^sup>* `` set ?ds"
        by blast
      with started(6) have "invoked w' = invoked w @ (zs @ [c])" by simp
      moreover from zs(2) step have "set (zs @ [c]) \<subseteq> (depRel s)\<^sup>* `` {c}" by auto
      ultimately show ?thesis by blast
    qed
  qed
next
  case (nil I n s w)
  show ?case by simp
next
  case (cons I n d ds s w)
  show ?case
  proof (intro allI impI)
    fix r s' w' assume "startComponent_range I n (d # ds) s w = Some (r, s', w')"
    then show "\<exists>zs. invoked w' = invoked w @ zs \<and> set zs \<subseteq> (depRel s)\<^sup>* `` set (d # ds)"
    proof (cases rule: startComponent_range_ConsE)
      case (failed err)
      with cons(1) obtain zs where "invoked w' = invoked w @ zs" "set zs \<subseteq> (depRel s)\<^sup>* `` {d}"
        by blast
      then show ?thesis by auto
    next
      case (continued s1 w1)
      with cons(1) obtain zs where zs: "invoked w1 = invoked w @ zs" "set zs \<subseteq> (depRel s)\<^sup>* `` {d}"
        by blast
      from frame(1) [rule_format, OF continued(1)]
      have "dependantComponents s1 = dependantComponents s" by simp
      then have R: "depRel s1 = depRel s" by (rule depRel_frame)
      from cons(2) [OF continued(1)] continued(2) R obtain us where
        us: "invoked w' = invoked w1 @ us" "set us \<subseteq> (depRel s)\<^sup>* `` set ds"
        by auto
      from zs us have "invoked w' = invoked w @ (zs @ us)" by simp
      moreover from zs(2) us(2) have "set (zs @ us) \<subseteq> (depRel s)\<^sup>* `` set (d # ds)" by auto
      ultimately show ?thesis by blast
    qed
  qed
qed

subsection \<open>The spec's procedure\<close>

lemma refines_spec:
  "\<forall>s' w'. Inv s w \<longrightarrow> startComponent I n c s w = Some (None, s', w') \<longrightarrow>
     spec_start (slice_at (dependantComponents s)) n c (completed w) = Some (completed w')"
  "\<forall>s' w'. Inv s w \<longrightarrow> startComponent_range I n cs s w = Some (None, s', w') \<longrightarrow>
     spec_start_each (slice_at (dependantComponents s)) n cs (completed w) = Some (completed w')"
proof (induction I n c s w and I n cs s w rule: start_induct)
  case (zero I c s w)
  show ?case by simp
next
  case (call I n c s w)
  show ?case
  proof (intro allI impI)
    fix s' w'
    assume inv: "Inv s w" and run: "startComponent I (Suc n) c s w = Some (None, s', w')"
    have flt: "checkForDependantComponents s c =
        filter (\<lambda>d. d \<notin> set (completed w)) (slice_at (dependantComponents s) c)"
    proof -
      from inv have "\<And>d. (startedComponents s d = None) = (d \<notin> set (completed w))"
        by (auto simp: Inv_def)
      then show ?thesis
        by (simp add: checkForDependantComponents_def slice_at_def split: option.splits)
    qed
    from run show "spec_start (slice_at (dependantComponents s)) (Suc n) c (completed w) =
        Some (completed w')"
    proof (cases rule: startComponent_SucE)
      case skip
      with inv have "c \<in> set (completed w)" by (auto simp: Inv_def)
      with skip show ?thesis by simp
    next
      case (dep_failed err)
      then show ?thesis by simp
    next
      case (start_failed s1 w1 e)
      then show ?thesis by simp
    next
      case (started s1 w1)
      with inv have "c \<notin> set (completed w)" by (auto simp: Inv_def)
      moreover from call started inv
      have "spec_start_each (slice_at (dependantComponents s)) n
              (checkForDependantComponents s c) (completed w) = Some (completed w1)" by blast
      ultimately show ?thesis using started(6) flt by simp
    qed
  qed
next
  case (nil I n s w)
  show ?case by simp
next
  case (cons I n d ds s w)
  show ?case
  proof (intro allI impI)
    fix s' w'
    assume inv: "Inv s w" and run: "startComponent_range I n (d # ds) s w = Some (None, s', w')"
    from run show "spec_start_each (slice_at (dependantComponents s)) n (d # ds) (completed w) =
        Some (completed w')"
    proof (cases rule: startComponent_range_ConsE)
      case (failed err)
      then show ?thesis by simp
    next
      case (continued s1 w1)
      from cons(1) inv continued(1)
      have 1: "spec_start (slice_at (dependantComponents s)) n d (completed w) = Some (completed w1)"
        by blast
      from invariant(1) [rule_format, OF inv continued(1)] have inv1: "Inv s1 w1" by simp
      from frame(1) [rule_format, OF continued(1)]
      have D: "dependantComponents s1 = dependantComponents s" by simp
      from cons(2) [OF continued(1)] inv1 continued(2) D
      have "spec_start_each (slice_at (dependantComponents s)) n ds (completed w1) =
          Some (completed w')" by auto
      with 1 show ?thesis by simp
    qed
  qed
qed

subsection \<open>Termination\<close>

lemma range_returns:
  assumes each: "\<forall>d \<in> set ds. \<forall>s w. dependantComponents s = D \<longrightarrow>
                   (\<exists>n x. startComponent I n d s w = Some x)"
    and D: "dependantComponents s = D"
  shows "\<exists>n x. startComponent_range I n ds s w = Some x"
  using each D
proof (induction ds arbitrary: s w)
  case Nil
  show ?case by simp
next
  case (Cons d ds)
  from Cons.prems obtain n1 x1 where 1: "startComponent I n1 d s w = Some x1" by fastforce
  obtain r s1 w1 where x1: "x1 = (r, s1, w1)" by (cases x1)
  show ?case
  proof (cases r)
    case (Some err)
    with 1 x1 have "startComponent_range I n1 (d # ds) s w =
        Some (Some (Wrap err ''failed to start component''), s1, w1)"
      by (simp add: startComponent_range.simps(2))
    then show ?thesis by blast
  next
    case None
    from frame(1) [rule_format, OF 1 [unfolded x1]] Cons.prems(2)
    have "dependantComponents s1 = D" by simp
    with Cons.IH Cons.prems(1) obtain n2 x2 where 2: "startComponent_range I n2 ds s1 w1 = Some x2"
      by (metis list.set_intros(2))
    from more_fuel(1) [rule_format, OF 1, of "max n1 n2"]
    have a: "startComponent I (max n1 n2) d s w = Some x1" by simp
    from more_fuel(2) [rule_format, OF 2, of "max n1 n2"]
    have b: "startComponent_range I (max n1 n2) ds s1 w1 = Some x2" by simp
    from a b x1 None have "startComponent_range I (max n1 n2) (d # ds) s w = Some x2"
      by (simp add: startComponent_range.simps(2))
    then show ?thesis by blast
  qed
qed

lemma call_returns:
  assumes wf: "wf ((depRel s0)\<inverse>)"
  shows "\<forall>s w. dependantComponents s = dependantComponents s0 \<longrightarrow>
           (\<exists>n x. startComponent I n c s w = Some x)"
  using wf
proof (induction c rule: wf_induct_rule)
  case (less c)
  show ?case
  proof (intro allI impI)
    fix s :: "'a Service" and w :: "('a, 'b) world"
    assume D: "dependantComponents s = dependantComponents s0"
    let ?ds = "checkForDependantComponents s c"
    have "\<forall>d \<in> set ?ds. \<forall>s w. dependantComponents s = dependantComponents s0 \<longrightarrow>
                   (\<exists>n x. startComponent I n d s w = Some x)"
    proof
      fix d assume "d \<in> set ?ds"
      then have "(d, c) \<in> (depRel s0)\<inverse>"
        by (simp add: set_checkForDependantComponents depRel_def D)
      then show "\<forall>s w. dependantComponents s = dependantComponents s0 \<longrightarrow>
                   (\<exists>n x. startComponent I n d s w = Some x)" by (rule less)
    qed
    from range_returns [OF this D] obtain n y where
      y: "startComponent_range I n ?ds s w = Some y" by blast
    obtain r s1 w1 where "y = (r, s1, w1)" by (cases y)
    with y have "\<exists>x. startComponent I (Suc n) c s w = Some x"
      by (simp add: startComponent.simps(2) split: option.splits)
    then show "\<exists>n x. startComponent I n c s w = Some x" by blast
  qed
qed

lemma finite_depRel:
  assumes "finite (dom (dependantComponents s))"
  shows "finite (depRel s)"
proof -
  have "depRel s \<subseteq> (\<Union>a \<in> dom (dependantComponents s). {a} \<times> set (slice_at (dependantComponents s) a))"
  proof
    fix p assume "p \<in> depRel s"
    then obtain a b where p: "p = (a, b)" and b: "b \<in> set (slice_at (dependantComponents s) a)"
      by (auto simp: depRel_def)
    from b have "a \<in> dom (dependantComponents s)"
      by (cases "dependantComponents s a") (auto simp: slice_at_def)
    with p b show "p \<in> (\<Union>a \<in> dom (dependantComponents s). {a} \<times> set (slice_at (dependantComponents s) a))"
      by blast
  qed
  moreover have "finite (\<Union>a \<in> dom (dependantComponents s). {a} \<times> set (slice_at (dependantComponents s) a))"
    using assms by simp
  ultimately show ?thesis by (rule finite_subset)
qed

lemma Service_Start_returns:
  assumes "finite (dom (dependantComponents s))" and "acyclic (depRel s)"
  shows "\<exists>n x. Service_Start I n s w = Some x"
proof -
  from assms have wf: "wf ((depRel s)\<inverse>)"
    by (simp add: finite_depRel finite_acyclic_wf_converse)
  have "\<forall>d \<in> set (components s). \<forall>s' w. dependantComponents s' = dependantComponents s \<longrightarrow>
                   (\<exists>n x. startComponent I n d s' w = Some x)"
    by (intro ballI) (rule call_returns [OF wf])
  from range_returns [OF this refl] show ?thesis
    by (simp add: Service_Start_def Service_Start_range_eq)
qed

lemma call_never_returns:
  assumes X: "\<forall>x \<in> X. startedComponents s x = None \<and>
                (\<exists>d ds. checkForDependantComponents s x = d # ds \<and> d \<in> X)"
  shows "x \<in> X \<Longrightarrow> startComponent I n x s w = None"
proof (induction n arbitrary: x)
  case 0
  show ?case by simp
next
  case (Suc n)
  with X obtain d ds where 1: "startedComponents s x = None"
    and 2: "checkForDependantComponents s x = d # ds" and 3: "d \<in> X" by blast
  from Suc.IH [OF 3] have "startComponent_range I n (d # ds) s w = None"
    by (simp add: startComponent_range.simps(2))
  with 1 2 show ?case by (simp add: startComponent.simps(2))
qed

subsection \<open>Draining the stack\<close>

lemma pop_snoc: "pop (st\<lparr>Functions := fs @ [f]\<rparr>) = (Some f, st\<lparr>Functions := fs\<rparr>)"
  by (simp add: pop_def)

lemma pop_Nil: "pop (st\<lparr>Functions := []\<rparr>) = (None, st\<lparr>Functions := []\<rparr>)"
  by (simp add: pop_def)

lemma Stack_Close_drains:
  "\<exists>w'. Stack_Close I (st\<lparr>Functions := fs\<rparr>) w = (st\<lparr>Functions := []\<rparr>, w') \<and>
        stopped w' = stopped w @ rev (map (closer_component \<circ> Action) fs) \<and>
        (\<exists>errs. stop_errors w' = stop_errors w @ errs \<and> printed w' = printed w @ errs) \<and>
        completed w' = completed w \<and> invoked w' = invoked w"
proof (induction fs arbitrary: w rule: rev_induct)
  case Nil
  show ?case by (subst Stack_Close.simps) (simp add: pop_Nil)
next
  case (snoc f fs)
  obtain c where c: "Action f = CloseFunc c" by (cases "Action f")
  let ?w1 = "Closer_Close I (Action f) w"
  have 1: "stopped ?w1 = stopped w @ [c]" "completed ?w1 = completed w" "invoked ?w1 = invoked w"
    "\<exists>errs. stop_errors ?w1 = stop_errors w @ errs \<and> printed ?w1 = printed w @ errs"
    using c by (auto split: option.splits)
  from snoc [of ?w1] obtain w' where
    w': "Stack_Close I (st\<lparr>Functions := fs\<rparr>) ?w1 = (st\<lparr>Functions := []\<rparr>, w')"
      "stopped w' = stopped ?w1 @ rev (map (closer_component \<circ> Action) fs)"
      "\<exists>errs. stop_errors w' = stop_errors ?w1 @ errs \<and> printed w' = printed ?w1 @ errs"
      "completed w' = completed ?w1" "invoked w' = invoked ?w1"
    by blast
  have "Stack_Close I (st\<lparr>Functions := fs @ [f]\<rparr>) w = (st\<lparr>Functions := []\<rparr>, w')"
    by (subst Stack_Close.simps) (simp add: pop_snoc w'(1))
  moreover have "stopped w' = stopped w @ rev (map (closer_component \<circ> Action) (fs @ [f]))"
    using w'(2) 1(1) c by simp
  moreover have "\<exists>errs. stop_errors w' = stop_errors w @ errs \<and> printed w' = printed w @ errs"
    using w'(3) 1(4) by (metis append.assoc)
  ultimately show ?case using w'(4,5) 1(2,3) by simp
qed

lemma Service_Stop_drains:
  "\<exists>w'. Service_Stop I s w = (s\<lparr>closingStack := (closingStack s)\<lparr>Functions := []\<rparr>\<rparr>, w') \<and>
        stopped w' = stopped w @ rev (map (closer_component \<circ> Action) (Functions (closingStack s))) \<and>
        (\<exists>errs. stop_errors w' = stop_errors w @ errs \<and> printed w' = printed w @ errs) \<and>
        completed w' = completed w \<and> invoked w' = invoked w"
  using Stack_Close_drains [where I = I and st = "closingStack s" and fs = "Functions (closingStack s)" and w = w]
  by (auto simp: Service_Stop_def)

subsection \<open>Configured services\<close>

lemma Register_frame:
  "components (snd (RegisterDependentComponents a b s :: 'e error option \<times> 'c Service)) = components s"
  "startedComponents (snd (RegisterDependentComponents a b s :: 'e error option \<times> 'c Service)) = startedComponents s"
  "closingStack (snd (RegisterDependentComponents a b s :: 'e error option \<times> 'c Service)) = closingStack s"
  "finite (dom (dependantComponents s)) \<Longrightarrow>
     finite (dom (dependantComponents (snd (RegisterDependentComponents a b s :: 'e error option \<times> 'c Service))))"
  by (simp_all add: RegisterDependentComponents_def)

lemma RegisterAll_frame:
  "components (RegisterAll es s) = components s"
  "startedComponents (RegisterAll es s) = startedComponents s"
  "closingStack (RegisterAll es s) = closingStack s"
  by (induction es s rule: RegisterAll.induct) (simp_all add: Register_frame)

lemma RegisterAll_finite:
  "finite (dom (dependantComponents s)) \<Longrightarrow> finite (dom (dependantComponents (RegisterAll es s)))"
  by (induction es s rule: RegisterAll.induct) (simp_all add: Register_frame)

lemma Inv_configured: "Inv (RegisterAll es (NewService cs)) []"
  by (simp add: Inv_def RegisterAll_frame) (simp add: NewService_def NewStack_def)

lemma components_configured [simp]: "components (RegisterAll es (NewService cs)) = cs"
  by (simp add: RegisterAll_frame) (simp add: NewService_def)

lemma Service_Start_configured:
  assumes run: "Service_Start I n (RegisterAll es (NewService cs)) [] = Some (r, s', w')"
  shows "Inv s' w'"
    and "dependantComponents s' = dependantComponents (RegisterAll es (NewService cs))"
    and "shape I [] r w'"
    and "r = None \<Longrightarrow> set cs \<subseteq> set (completed w')"
    and "set (invoked w') \<subseteq> (depRel (RegisterAll es (NewService cs)))\<^sup>* `` set cs"
    and "r \<noteq> None \<Longrightarrow> \<exists>w1 x e. w' = w1 @ [StartCalled x (Some e)] \<and> x \<notin> set (completed w') \<and>
           set (slice_at (dependantComponents (RegisterAll es (NewService cs))) x) \<subseteq> set (completed w')"
proof -
  let ?s0 = "RegisterAll es (NewService cs)"
  from run have run': "startComponent_range I n cs ?s0 [] = Some (r, s', w')"
    by (simp add: Service_Start_def Service_Start_range_eq)
  from invariant(2) [rule_format, OF Inv_configured run']
  obtain ys where 1: "Inv s' w'" and 2: "trail ?s0 [] r w' ys"
    and 3: "r = None \<longrightarrow> set cs \<subseteq> set (completed w')" by blast
  show "Inv s' w'" by (rule 1)
  show "dependantComponents s' = dependantComponents ?s0"
    using frame(2) [rule_format, OF run'] by simp
  show "shape I [] r w'" using outcome_shape(2) [rule_format, OF run'] .
  show "r = None \<Longrightarrow> set cs \<subseteq> set (completed w')" using 3 by simp
  show "set (invoked w') \<subseteq> (depRel ?s0)\<^sup>* `` set cs"
    using within_reach(2) [rule_format, OF run'] by auto
  show "r \<noteq> None \<Longrightarrow> \<exists>w1 x e. w' = w1 @ [StartCalled x (Some e)] \<and> x \<notin> set (completed w') \<and>
           set (slice_at (dependantComponents ?s0) x) \<subseteq> set (completed w')"
    using 2 unfolding trail_def by blast
qed

lemma Service_Start_success:
  assumes run: "Service_Start I n (RegisterAll es (NewService cs)) [] = Some (None, s', w')"
  shows "invoked w' = completed w'"
    and "distinct (invoked w')"
    and "set (invoked w') = (depRel (RegisterAll es (NewService cs)))\<^sup>* `` set cs"
    and "ordered (slice_at (dependantComponents (RegisterAll es (NewService cs)))) (invoked w')"
proof -
  let ?s0 = "RegisterAll es (NewService cs)"
  note facts = Service_Start_configured [OF run]
  from facts(3) show eq: "invoked w' = completed w'" by (simp add: shape_success)
  from facts(1) eq show "distinct (invoked w')" by (simp add: Inv_def)
  from facts(1,2) eq show "ordered (slice_at (dependantComponents ?s0)) (invoked w')"
    by (simp add: Inv_def)
  from facts(2) have R: "depRel s' = depRel ?s0" by (rule depRel_frame)
  have "(depRel ?s0)\<^sup>* `` set cs \<subseteq> set (completed w')"
  proof
    fix b assume "b \<in> (depRel ?s0)\<^sup>* `` set cs"
    then obtain a where a: "a \<in> set cs" "(a, b) \<in> (depRel s')\<^sup>*" using R by auto
    from a(1) facts(4) have "a \<in> set (completed w')" by blast
    from Inv_closed [OF facts(1) this a(2)] show "b \<in> set (completed w')" .
  qed
  with facts(5) eq show "set (invoked w') = (depRel ?s0)\<^sup>* `` set cs" by auto
qed

lemma chain_dependencies:
  assumes "distinct [a, b, c]"
  shows "slice_at (dependantComponents (RegisterAll [(a, b), (b, c)] (NewService cs))) a = [b]"
    and "slice_at (dependantComponents (RegisterAll [(a, b), (b, c)] (NewService cs))) b = [c]"
    and "slice_at (dependantComponents (RegisterAll [(a, b), (b, c)] (NewService cs))) c = []"
    and "depRel (RegisterAll [(a, b), (b, c)] (NewService cs)) = {(a, b), (b, c)}"
  using assms
  by (auto simp: RegisterDependentComponents_def NewService_def slice_at_def depRel_def
      split: if_splits)

lemma chain_reach:
  assumes "a \<in> set cs" and "set cs \<subseteq> {a, b, c}"
  shows "{(a, b), (b, c)}\<^sup>* `` set cs = {a, b, c}"
proof
  show "{(a, b), (b, c)}\<^sup>* `` set cs \<subseteq> {a, b, c}"
  proof
    fix y assume "y \<in> {(a, b), (b, c)}\<^sup>* `` set cs"
    then obtain x where "x \<in> set cs" and xy: "(x, y) \<in> {(a, b), (b, c)}\<^sup>*" by blast
    with assms(2) have "x \<in> {a, b, c}" by blast
    with xy show "y \<in> {a, b, c}" by (induction rule: rtrancl_induct) auto
  qed
next
  have "(a, b) \<in> {(a, b), (b, c)}\<^sup>*" by blast
  moreover have "(a, c) \<in> {(a, b), (b, c)}\<^sup>*"
    by (rule rtrancl_trans [of a b _ c]) blast+
  ultimately show "{a, b, c} \<subseteq> {(a, b), (b, c)}\<^sup>* `` set cs" using assms(1) by blast
qed

subsection \<open>Cycles that registration accepts\<close>

lemma register_fresh_edges:
  assumes "distinct (map fst es)"
    and "\<forall>(a, b) \<in> set es. (b, a) \<notin> set es"
    and "\<forall>(a, b) \<in> set es. dependantComponents s a = None \<and>
           a \<notin> set (slice_at (dependantComponents s) b)"
  shows "RegisterAll_results es s = replicate (length es) None \<and>
         dependantComponents (RegisterAll es s) =
           (\<lambda>x. case map_of es x of None \<Rightarrow> dependantComponents s x | Some b \<Rightarrow> Some [b])"
  using assms
proof (induction es arbitrary: s)
  case Nil
  show ?case by simp
next
  case (Cons e es)
  obtain a b where e: "e = (a, b)" by (cases e)
  let ?s1 = "s\<lparr>dependantComponents := (dependantComponents s)(a \<mapsto> [b])\<rparr>"
  from Cons.prems(3) e have a: "dependantComponents s a = None"
    and b: "a \<notin> set (slice_at (dependantComponents s) b)" by auto
  then have reg: "RegisterDependentComponents a b s = (None :: unit error option, ?s1)"
    by (auto simp: RegisterDependentComponents_def slice_at_def split: option.splits)
  have 1: "distinct (map fst es)" using Cons.prems(1) by simp
  have 2: "\<forall>(a, b) \<in> set es. (b, a) \<notin> set es" using Cons.prems(2) by auto
  have 3: "\<forall>(a', b') \<in> set es. dependantComponents ?s1 a' = None \<and>
           a' \<notin> set (slice_at (dependantComponents ?s1) b')"
  proof (intro ballI, clarify)
    fix a' b' assume in_es: "(a', b') \<in> set es"
    with Cons.prems(1) e have ne: "a' \<noteq> a" by (auto simp: image_iff)
    from in_es Cons.prems(3) have old: "dependantComponents s a' = None"
      "a' \<notin> set (slice_at (dependantComponents s) b')" by auto
    have "a' \<notin> set (slice_at (dependantComponents ?s1) b')"
    proof (cases "b' = a")
      case True
      with in_es Cons.prems(2) e have "(a, a') \<noteq> (a, b)" by auto
      with True show ?thesis by (simp add: slice_at_def)
    next
      case False
      with old(2) show ?thesis by (simp add: slice_at_def)
    qed
    with ne old(1) show "dependantComponents ?s1 a' = None \<and>
           a' \<notin> set (slice_at (dependantComponents ?s1) b')" by simp
  qed
  from Cons.IH [OF 1 2 3] have IH: "RegisterAll_results es ?s1 = replicate (length es) None"
    "dependantComponents (RegisterAll es ?s1) =
       (\<lambda>x. case map_of es x of None \<Rightarrow> dependantComponents ?s1 x | Some b \<Rightarrow> Some [b])"
    by simp_all
  from Cons.prems(1) e have "map_of es a = None"
    by (simp add: map_of_eq_None_iff)
  with IH(2) have "dependantComponents (RegisterAll es ?s1) =
       (\<lambda>x. case map_of ((a, b) # es) x of None \<Rightarrow> dependantComponents s x | Some b \<Rightarrow> Some [b])"
    by (auto simp: fun_eq_iff split: option.splits)
  with IH(1) reg e show ?case by simp
qed

lemma ring_no_reverse:
  assumes d: "distinct xs" and len: "3 \<le> length xs"
    and ab: "(a, b) \<in> set (zip xs (rotate1 xs))"
  shows "(b, a) \<notin> set (zip xs (rotate1 xs))"
proof
  assume ba: "(b, a) \<in> set (zip xs (rotate1 xs))"
  let ?n = "length xs"
  from ab obtain i where i: "i < ?n" "xs ! i = a" "rotate1 xs ! i = b"
    by (auto simp: in_set_zip)
  from ba obtain j where j: "j < ?n" "xs ! j = b" "rotate1 xs ! j = a"
    by (auto simp: in_set_zip)
  from len have pos: "0 < ?n" by (cases xs) auto
  then have lt: "Suc i mod ?n < ?n" "Suc j mod ?n < ?n" by simp_all
  from i have "xs ! (Suc i mod ?n) = b" by (simp add: nth_rotate1)
  with j(2) have "xs ! (Suc i mod ?n) = xs ! j" by simp
  with nth_eq_iff_index_eq [OF d lt(1) j(1)] have 1: "Suc i mod ?n = j" by simp
  from j have "xs ! (Suc j mod ?n) = a" by (simp add: nth_rotate1)
  with i(2) have "xs ! (Suc j mod ?n) = xs ! i" by simp
  with nth_eq_iff_index_eq [OF d lt(2) i(1)] have 2: "Suc j mod ?n = i" by simp
  from 1 2 i(1) j(1) len show False
    by (cases "Suc i = ?n"; cases "Suc j = ?n") auto
qed

lemma ring_registered:
  assumes d: "distinct xs" and len: "3 \<le> length xs"
  shows "RegisterAll_results (zip xs (rotate1 xs)) (NewService cs) = replicate (length xs) None"
    and "\<forall>x \<in> set xs. \<exists>y \<in> set xs.
           dependantComponents (RegisterAll (zip xs (rotate1 xs)) (NewService cs)) x = Some [y]"
proof -
  let ?es = "zip xs (rotate1 xs)"
  have 1: "distinct (map fst ?es)" using d by simp
  have 2: "\<forall>(a, b) \<in> set ?es. (b, a) \<notin> set ?es"
    using ring_no_reverse [OF d len] by blast
  have 3: "\<forall>(a, b) \<in> set ?es. dependantComponents (NewService cs) a = None \<and>
           a \<notin> set (slice_at (dependantComponents (NewService cs)) b)"
    by (simp add: NewService_def slice_at_def)
  note reg = register_fresh_edges [OF 1 2 3]
  from reg show "RegisterAll_results ?es (NewService cs) = replicate (length xs) None" by simp
  show "\<forall>x \<in> set xs. \<exists>y \<in> set xs.
           dependantComponents (RegisterAll ?es (NewService cs)) x = Some [y]"
  proof
    fix x assume "x \<in> set xs"
    then obtain y where y: "map_of ?es x = Some y"
      using map_of_zip_is_Some [of xs "rotate1 xs" x] by auto
    then have "(x, y) \<in> set ?es" by (rule map_of_SomeD)
    then have "y \<in> set xs" by (auto dest: set_zip_rightD)
    moreover from reg y have "dependantComponents (RegisterAll ?es (NewService cs)) x = Some [y]"
      by simp
    ultimately show "\<exists>y \<in> set xs.
           dependantComponents (RegisterAll ?es (NewService cs)) x = Some [y]" by blast
  qed
qed

lemma ring_never_returns:
  assumes d: "distinct xs" and len: "3 \<le> length xs"
  shows "Service_Start I k (RegisterAll (zip xs (rotate1 xs)) (NewService xs)) w = None"
proof -
  let ?s = "RegisterAll (zip xs (rotate1 xs)) (NewService xs)"
  have started: "startedComponents ?s = Map.empty"
    by (simp add: RegisterAll_frame) (simp add: NewService_def)
  have "\<forall>x \<in> set xs. startedComponents ?s x = None \<and>
          (\<exists>d ds. checkForDependantComponents ?s x = d # ds \<and> d \<in> set xs)"
  proof
    fix x assume "x \<in> set xs"
    with ring_registered(2) [OF d len, of xs] obtain y where "y \<in> set xs"
      "dependantComponents ?s x = Some [y]" by blast
    then show "startedComponents ?s x = None \<and>
          (\<exists>d ds. checkForDependantComponents ?s x = d # ds \<and> d \<in> set xs)"
      by (simp add: started checkForDependantComponents_def)
  qed
  then have never: "\<And>x. x \<in> set xs \<Longrightarrow> startComponent I k x ?s w = None"
    by (rule call_never_returns)
  from len obtain x rest where xs: "xs = x # rest" by (cases xs) auto
  with never [of x] have "startComponent I k x ?s w = None" by simp
  moreover have "components ?s = xs" by simp
  ultimately show ?thesis using xs by (simp add: Service_Start_def)
qed

subsection \<open>Example runs\<close>

lemma diamond_eq:
  "diamond = \<lparr>components = [0, 1, 2], dependantComponents = [0 \<mapsto> [1, 2], 1 \<mapsto> [2]],
     startedComponents = Map.empty, closingStack = \<lparr>Functions = []\<rparr>\<rparr>"
  by (simp add: diamond_def RegisterDependentComponents_def NewService_def NewStack_def slice_at_def)

lemmas run_simps =
  Service_Start_def startComponent.simps(2) startComponent_range.simps(2)
  checkForDependantComponents_def Stack_Add_def push_def eval_nat_numeral

lemma diamond_run:
  "\<exists>s'. Service_Start always_ok 3 diamond [] =
     Some (None, s', [StartCalled 2 None, StartCalled 1 None, StartCalled 0 None])"
  by (simp add: diamond_eq always_ok_def run_simps)

lemma diamond_run2:
  "Service_Start always_ok 3 diamond [] =
     Some (None, \<lparr>components = [0, 1, 2], dependantComponents = [0 \<mapsto> [1, 2], 1 \<mapsto> [2]],
     startedComponents = [2 \<mapsto> True, 1 \<mapsto> True, 0 \<mapsto> True], 
     closingStack = \<lparr>Functions = [\<lparr>Name = ''something'', Action = CloseFunc 2\<rparr>,
        \<lparr>Name = ''something'', Action = CloseFunc 1\<rparr>, \<lparr>Name = ''something'', Action = CloseFunc 0\<rparr>]\<rparr>\<rparr>,
      [StartCalled 2 None, StartCalled 1 None, StartCalled 0 None])"
  by (simp add: diamond_eq always_ok_def run_simps)

lemma diamond_started_run:
  "Service_Start always_ok 3 (RegisterAll [(0, 1), (0, 2), (1, 2)] (NewService [0, 1, 2])) [] =
     Some (None, diamond_started, diamond_starts)"
  using diamond_run2 by (simp add: diamond_def diamond_started_def diamond_starts_def)

lemma diamond_failed_run:
  "Service_Start (failing 1) 3 (RegisterAll [(0, 1), (0, 2), (1, 2)] (NewService [0, 1, 2])) [] =
     Some (Some (Wrap (Wrap (Wrap (ComponentError ''refused'') ''failed to start component'')
                   ''failed to start component'') ''failed to start component''),
           diamond_failed, [StartCalled 2 None, StartCalled 1 (Some ''refused'')])"
  by (simp add: RegisterDependentComponents_def NewService_def NewStack_def slice_at_def
      failing_def run_simps diamond_failed_def)

lemma chain_run:
  "\<exists>s'. Service_Start always_ok 3 (RegisterAll [(0, 1), (1, 2)] (NewService [0, 1, 2])) [] =
     Some (None, s', [StartCalled 2 None, StartCalled 1 None, StartCalled 0 None])"
  by (simp add: RegisterDependentComponents_def NewService_def NewStack_def slice_at_def
      always_ok_def run_simps)

lemma diamond_stop:
  "snd (Service_Stop always_ok diamond_started diamond_starts) =
     diamond_starts @ [StopCalled 0 None, StopCalled 1 None, StopCalled 2 None]"
  by (simp add: Service_Stop_def Stack_Close.simps pop_def always_ok_def diamond_started_def)

lemma diamond_stop_failing:
  "snd (Service_Stop (failing 1) diamond_started diamond_starts) =
     diamond_starts @ [StopCalled 0 None, StopCalled 1 (Some ''stuck''), Printed ''stuck'',
       StopCalled 2 None]"
  by (simp add: Service_Stop_def Stack_Close.simps pop_def failing_def diamond_started_def)

lemma diamond_acyclic: "acyclic (depRel diamond)"
proof -
  have "depRel diamond \<subseteq> {(x, y). x < y}"
    by (auto simp: depRel_def diamond_eq slice_at_def split: if_splits)
  moreover have "acyclic {(x, y :: nat). x < y}" by (rule wf_acyclic) (rule wf_less)
  ultimately show ?thesis by (rule acyclic_subset [rotated])
qed

section \<open>The start of a configured service\<close>

text \<open>
  C1, as claimed for every dependency graph that registration accepts: one call of
  \<open>Service.Start\<close> calls \<open>Start\<close> of every reachable component exactly once. Registration
  accepts the edge from a component to itself: the call returns nil. On that service
  \<open>startComponent\<close> finds the component among its own dependencies that are not started
  and calls itself again, at every depth: \<open>Service.Start\<close> does not return, and \<open>Start\<close>
  of the component is never called.
\<close>

theorem C1_self_edge_counterexample:
  "RegisterAll_results [(0, 0)] (NewService [0::nat]) = [None] \<and>
   (\<forall>n. Service_Start always_ok n (RegisterAll [(0, 0)] (NewService [0])) [] = None)"
proof -
  let ?s = "RegisterAll [(0, 0)] (NewService [0::nat])"
  have s: "?s = \<lparr>components = [0], dependantComponents = [0 \<mapsto> [0]],
     startedComponents = Map.empty, closingStack = \<lparr>Functions = []\<rparr>\<rparr>"
    by (simp add: RegisterDependentComponents_def NewService_def NewStack_def slice_at_def)
  have "\<forall>x \<in> {0::nat}. startedComponents ?s x = None \<and>
          (\<exists>d ds. checkForDependantComponents ?s x = d # ds \<and> d \<in> {0})"
    unfolding s by (simp add: checkForDependantComponents_def)
  then have "\<And>n w. startComponent always_ok n 0 ?s w = None"
    by (rule call_never_returns) simp
  moreover have "components ?s = [0]" unfolding s by simp
  ultimately have "\<forall>n. Service_Start always_ok n ?s [] = None"
    by (simp add: Service_Start_def)
  moreover have "RegisterAll_results [(0, 0)] (NewService [0::nat]) = [None]"
    by (simp add: RegisterDependentComponents_def NewService_def)
  ultimately show ?thesis by simp
qed

text \<open>
  C1, amended: on a service configured by registration, whenever a call of
  \<open>Service.Start\<close> returns nil, \<open>Start\<close> has been called exactly once for every component
  of the list given to \<open>NewService\<close> and for every component reachable from them along
  dependency edges, however many components depend on it, and for no other component.
  Whatever \<open>Service.Start\<close> returns, no component had \<open>Start\<close> called twice. A component
  already marked started is skipped: \<open>startComponent\<close> returns nil at once and changes
  nothing.
\<close>

theorem C1_started_exactly_once:
  "Service_Start I n (RegisterAll es (NewService cs)) [] = Some (r, s', w') \<Longrightarrow>
     distinct (invoked w') \<and>
     (r = None \<longrightarrow>
        (\<forall>c. count_list (invoked w') c =
               (if c \<in> (depRel (RegisterAll es (NewService cs)))\<^sup>* `` set cs then 1 else 0))) \<and>
     (\<forall>m c s w. startedComponents s c \<noteq> None \<longrightarrow> startComponent I (Suc m) c s w = Some (None, s, w))"
proof -
  let ?s0 = "RegisterAll es (NewService cs)"
  assume run: "Service_Start I n ?s0 [] = Some (r, s', w')"
  note facts = Service_Start_configured [OF run]
  from facts(1) have dist: "distinct (completed w')" by (simp add: Inv_def)
  have 1: "distinct (invoked w')"
  proof (cases r)
    case None
    with facts(3) dist show ?thesis by (simp add: shape_success)
  next
    case (Some err)
    with facts(3) obtain ys x e where w': "w' = map succeeded ys @ [StartCalled x (Some e)]"
      by (auto elim: shape_failure)
    from Some facts(6) obtain w1 x1 e1 where "w' = w1 @ [StartCalled x1 (Some e1)]"
      "x1 \<notin> set (completed w')" by auto
    with w' have "x \<notin> set ys" by simp
    with dist w' show ?thesis by simp
  qed
  have 2: "\<forall>c. count_list (invoked w') c = (if c \<in> (depRel ?s0)\<^sup>* `` set cs then 1 else 0)"
    if r: "r = None"
  proof -
    from r facts(3) have eq: "invoked w' = completed w'" by (simp add: shape_success)
    from facts(2) have R: "depRel s' = depRel ?s0" by (rule depRel_frame)
    have "(depRel ?s0)\<^sup>* `` set cs \<subseteq> set (completed w')"
    proof
      fix b assume "b \<in> (depRel ?s0)\<^sup>* `` set cs"
      then obtain a where a: "a \<in> set cs" "(a, b) \<in> (depRel s')\<^sup>*" using R by auto
      from a(1) facts(4) [OF r] have "a \<in> set (completed w')" by blast
      from Inv_closed [OF facts(1) this a(2)] show "b \<in> set (completed w')" .
    qed
    with facts(5) eq have "set (invoked w') = (depRel ?s0)\<^sup>* `` set cs" by auto
    with 1 show ?thesis by (simp add: distinct_count_list)
  qed
  have 3: "\<forall>m c s w. startedComponents s c \<noteq> None \<longrightarrow>
             startComponent I (Suc m) c s w = Some (None, s, w)"
    by (simp add: startComponent.simps(2))
  from 1 2 3 show ?thesis by blast
qed

theorem C1_started_exactly_once_witness:
  "\<exists>s'. Service_Start always_ok 3 diamond [] =
       Some (None, s', [StartCalled 2 None, StartCalled 1 None, StartCalled 0 None]) \<and>
     distinct (invoked [StartCalled 2 None, StartCalled 1 None, StartCalled (0::nat) (None :: string option)]) \<and>
     count_list (invoked [StartCalled 2 None, StartCalled 1 None, StartCalled (0::nat) (None :: string option)]) 2 = 1"
proof -
  from diamond_run obtain s' where
    run: "Service_Start always_ok 3 (RegisterAll [(0, 1), (0, 2), (1, 2)] (NewService [0, 1, 2])) [] =
       Some (None, s', [StartCalled 2 None, StartCalled 1 None, StartCalled 0 None])"
    unfolding diamond_def by blast
  from C1_started_exactly_once [OF run] run show ?thesis
    unfolding diamond_def by simp
qed

text \<open>
  C2, as claimed: sibling dependencies are started in the order of their registration.
  In the diamond, \<open>0\<close> registers its dependency on \<open>1\<close> before its dependency on \<open>2\<close>,
  and \<open>1\<close> depends on \<open>2\<close>: all three registrations are accepted, and \<open>2\<close> is started
  before \<open>1\<close>, as it must be, since every dependency is started before its dependent.
\<close>

theorem C2_diamond_counterexample:
  "RegisterAll_results [(0, 1), (0, 2), (1, 2)] (NewService [0::nat, 1, 2]) = [None, None, None] \<and>
   slice_at (dependantComponents diamond) 0 = [1, 2] \<and>
   start_order (Service_Start always_ok 3 diamond []) = Some (None, [2, 1, 0])"
proof -
  from diamond_run obtain s' where
    "Service_Start always_ok 3 diamond [] =
       Some (None, s', [StartCalled 2 None, StartCalled 1 None, StartCalled 0 None])" by blast
  then have "start_order (Service_Start always_ok 3 diamond []) = Some (None, [2, 1, 0])"
    by (simp add: start_order_def)
  moreover have "slice_at (dependantComponents diamond) 0 = [1, 2]"
    by (simp add: diamond_eq slice_at_def)
  moreover have "RegisterAll_results [(0, 1), (0, 2), (1, 2)] (NewService [0::nat, 1, 2]) =
      [None, None, None]"
    by (simp add: RegisterDependentComponents_def NewService_def slice_at_def)
  ultimately show ?thesis by simp
qed

text \<open>
  C2, amended: on a service configured by registration, the order of the \<open>Start\<close> calls
  is that of a depth-first traversal. When \<open>Start\<close> of a component is called, \<open>Start\<close> of
  each of its dependencies has returned nil before. When \<open>Service.Start\<close> returns nil, the
  components were started in the order of the spec's recursive procedure, which takes the
  top-level components in the order of the list given to \<open>NewService\<close> and the
  dependencies of a component in the order of their registration, and leaves alone a
  component that is already started (so a sibling that an earlier sibling depends on is
  started before it). This order is the same for every behaviour of the components and
  every depth that suffices. For the chain where \<open>a\<close> depends on \<open>b\<close> and \<open>b\<close> on \<open>c\<close>,
  the order is \<open>c\<close>, \<open>b\<close>, \<open>a\<close>.
\<close>

theorem C2_start_order:
  "Service_Start I n (RegisterAll es (NewService cs)) [] = Some (r, s', w') \<Longrightarrow>
     (\<forall>pre a ra post. w' = pre @ StartCalled a ra # post \<longrightarrow>
        set (slice_at (dependantComponents (RegisterAll es (NewService cs))) a) \<subseteq> set (completed pre)) \<and>
     (r = None \<longrightarrow>
        spec_start_each (slice_at (dependantComponents (RegisterAll es (NewService cs)))) n cs [] =
          Some (invoked w')) \<and>
     (\<forall>I' n' s'' w''. r = None \<longrightarrow>
        Service_Start I' n' (RegisterAll es (NewService cs)) [] = Some (None, s'', w'') \<longrightarrow>
        invoked w'' = invoked w') \<and>
     (\<forall>a b c. r = None \<longrightarrow> distinct [a, b, c] \<longrightarrow> es = [(a, b), (b, c)] \<longrightarrow>
        a \<in> set cs \<longrightarrow> set cs \<subseteq> {a, b, c} \<longrightarrow> invoked w' = [c, b, a])"
proof -
  let ?s0 = "RegisterAll es (NewService cs)"
  let ?D = "slice_at (dependantComponents ?s0)"
  assume run: "Service_Start I n ?s0 [] = Some (r, s', w')"
  note facts = Service_Start_configured [OF run]
  from facts(1,2) have ord: "ordered ?D (completed w')" by (simp add: Inv_def)
  have 1: "\<forall>pre a ra post. w' = pre @ StartCalled a ra # post \<longrightarrow> set (?D a) \<subseteq> set (completed pre)"
  proof (intro allI impI)
    fix pre a ra post assume eq: "w' = pre @ StartCalled a ra # post"
    show "set (?D a) \<subseteq> set (completed pre)"
    proof (cases r)
      case None
      with facts(3) obtain ys where ys: "w' = map succeeded ys" by (auto simp: shape_def)
      with ord have "ordered ?D ys" by simp
      moreover from ys eq have "map succeeded ys = pre @ StartCalled a ra # post" by simp
      ultimately show ?thesis by (rule ordered_by_events)
    next
      case (Some err)
      with facts(3) obtain ys x e where w': "w' = map succeeded ys @ [StartCalled x (Some e)]"
        by (auto elim: shape_failure)
      with ord have ordys: "ordered ?D ys" by simp
      from Some facts(6) w' have last: "set (?D x) \<subseteq> set ys" by auto
      show ?thesis
      proof (cases post rule: rev_cases)
        case Nil
        with eq w' have "pre = map succeeded ys" "a = x" by auto
        with last show ?thesis by simp
      next
        case (snoc post' ev)
        with eq w' have "map succeeded ys = pre @ StartCalled a ra # post'" by simp
        from ordered_by_events [OF ordys this] show ?thesis .
      qed
    qed
  qed
  have spec: "spec_start_each ?D m cs [] = Some (invoked w2)"
    if "Service_Start J m ?s0 [] = Some (None, s2, w2)" for J m s2 w2
  proof -
    from that have "startComponent_range J m cs ?s0 [] = Some (None, s2, w2)"
      by (simp add: Service_Start_def Service_Start_range_eq)
    from refines_spec(2) [rule_format, OF Inv_configured this]
    have "spec_start_each ?D m cs [] = Some (completed w2)" by simp
    moreover from Service_Start_configured(3) [OF that] have "invoked w2 = completed w2"
      by (rule shape_success)
    ultimately show ?thesis by simp
  qed
  have 2: "r = None \<longrightarrow> spec_start_each ?D n cs [] = Some (invoked w')"
    using spec run by blast
  have 3: "\<forall>I' n' s'' w''. r = None \<longrightarrow>
        Service_Start I' n' ?s0 [] = Some (None, s'', w'') \<longrightarrow> invoked w'' = invoked w'"
  proof (intro allI impI)
    fix I' n' s'' w''
    assume r: "r = None" and run': "Service_Start I' n' ?s0 [] = Some (None, s'', w'')"
    from more_fuel_Service_Start [OF run, of "max n n'"] r
    have "spec_start_each ?D (max n n') cs [] = Some (invoked w')" by (simp add: spec)
    moreover from more_fuel_Service_Start [OF run', of "max n n'"]
    have "spec_start_each ?D (max n n') cs [] = Some (invoked w'')" by (simp add: spec)
    ultimately show "invoked w'' = invoked w'" by simp
  qed
  have 4: "\<forall>a b c. r = None \<longrightarrow> distinct [a, b, c] \<longrightarrow> es = [(a, b), (b, c)] \<longrightarrow>
        a \<in> set cs \<longrightarrow> set cs \<subseteq> {a, b, c} \<longrightarrow> invoked w' = [c, b, a]"
  proof (intro allI impI)
    fix a b c
    assume r: "r = None" and d: "distinct [a, b, c]" and es: "es = [(a, b), (b, c)]"
      and a: "a \<in> set cs" and cs: "set cs \<subseteq> {a, b, c}"
    from run r have run': "Service_Start I n ?s0 [] = Some (None, s', w')" by simp
    note ok = Service_Start_success [OF run']
    from ok(3) es chain_dependencies(4) [OF d] chain_reach [OF a cs]
    have "set (invoked w') = {a, b, c}" by simp
    moreover from es chain_dependencies(1,2) [OF d]
    have "?D a = [b]" "?D b = [c]" by simp_all
    ultimately show "invoked w' = [c, b, a]"
      using ok(2,4) d by (intro three_in_order [where D = ?D]) simp_all
  qed
  from 1 2 3 4 show ?thesis by blast
qed

theorem C2_start_order_witness:
  "\<exists>s'. Service_Start always_ok 3 (RegisterAll [(0, 1), (1, 2)] (NewService [0, 1, 2])) [] =
       Some (None, s', [StartCalled 2 None, StartCalled 1 None, StartCalled 0 None]) \<and>
     distinct [0::nat, 1, 2] \<and>
     invoked [StartCalled 2 None, StartCalled 1 None, StartCalled (0::nat) (None :: string option)] =
       [2, 1, 0]"
proof -
  from chain_run obtain s' where
    run: "Service_Start always_ok 3 (RegisterAll [(0, 1), (1, 2)] (NewService [0, 1, 2])) [] =
       Some (None, s', [StartCalled 2 None, StartCalled 1 None, StartCalled 0 None])"
    by blast
  have d: "distinct [0::nat, 1, 2]" by simp
  from C2_start_order [OF run, THEN conjunct2, THEN conjunct2, THEN conjunct2, rule_format,
      OF refl d refl]
  have "invoked [StartCalled 2 None, StartCalled 1 None, StartCalled (0::nat) (None :: string option)] =
       [2, 1, 0]" by simp
  with d run show ?thesis by blast
qed



text \<open>
  C5, as claimed: at every point after \<open>Service.Start\<close> returns, the closing stack holds
  one action for each component marked in \<open>startedComponents\<close>. \<open>Service.Stop\<close> is such
  a point: it pops every action, and nothing ever removes a key of \<open>startedComponents\<close>.
  After the diamond is started and stopped, the closing stack is empty and all three
  components are still marked started.
\<close>

theorem C5_after_stop_counterexample:
  "Service_Start always_ok 3 (RegisterAll [(0, 1), (0, 2), (1, 2)] (NewService [0, 1, 2])) [] =
     Some (None, diamond_started, diamond_starts) \<and>
   map Action (Functions (closingStack (fst (Service_Stop always_ok diamond_started diamond_starts)))) = [] \<and>
   dom (startedComponents (fst (Service_Stop always_ok diamond_started diamond_starts))) = {0, 1, 2} \<and>
   map Action (Functions (closingStack (fst (Service_Stop always_ok diamond_started diamond_starts)))) \<noteq>
     map CloseFunc [2, 1, 0]"
proof -
  from Service_Stop_drains [of always_ok diamond_started diamond_starts]
  have stop: "fst (Service_Stop always_ok diamond_started diamond_starts) =
      diamond_started\<lparr>closingStack := (closingStack diamond_started)\<lparr>Functions := []\<rparr>\<rparr>"
    by auto
  have "dom (startedComponents diamond_started) = {0, 1, 2}"
    by (auto simp: diamond_started_def split: if_splits)
  with stop diamond_started_run show ?thesis by simp
qed

text \<open>
  C5, amended: from the return of \<open>Service.Start\<close> on a service configured by registration,
  with nil or with an error, until \<open>Service.Stop\<close> drains the stack, and also after any
  further call of \<open>Service.Start\<close> in between, the actions on the closing stack are the
  closures of the components marked in \<open>startedComponents\<close>, one for each and none twice,
  in the order in which their \<open>Start\<close> calls returned nil. After \<open>Service.Stop\<close> the closing
  stack is empty.
\<close>

theorem C5_closing_stack_matches_started:
  "Service_Start I n (RegisterAll es (NewService cs)) [] = Some (r, s1, w1) \<Longrightarrow>
     map Action (Functions (closingStack s1)) = map CloseFunc (completed w1) \<and>
     distinct (completed w1) \<and>
     dom (startedComponents s1) = set (completed w1) \<and>
     (\<forall>J m r2 s2 w2. Service_Start J m s1 w1 = Some (r2, s2, w2) \<longrightarrow>
        map Action (Functions (closingStack s2)) = map CloseFunc (completed w2) \<and>
        distinct (completed w2) \<and>
        dom (startedComponents s2) = set (completed w2)) \<and>
     Functions (closingStack (fst (Service_Stop I s1 w1))) = []"
proof -
  assume run: "Service_Start I n (RegisterAll es (NewService cs)) [] = Some (r, s1, w1)"
  from Service_Start_configured(1) [OF run] have inv: "Inv s1 w1" .
  then have 1: "map Action (Functions (closingStack s1)) = map CloseFunc (completed w1) \<and>
     distinct (completed w1) \<and> dom (startedComponents s1) = set (completed w1)"
    unfolding Inv_def by blast
  have 2: "\<forall>J m r2 s2 w2. Service_Start J m s1 w1 = Some (r2, s2, w2) \<longrightarrow>
        map Action (Functions (closingStack s2)) = map CloseFunc (completed w2) \<and>
        distinct (completed w2) \<and>
        dom (startedComponents s2) = set (completed w2)"
  proof (intro allI impI)
    fix J m r2 s2 w2 assume "Service_Start J m s1 w1 = Some (r2, s2, w2)"
    then have "startComponent_range J m (components s1) s1 w1 = Some (r2, s2, w2)"
      by (simp add: Service_Start_def Service_Start_range_eq)
    from invariant(2) [rule_format, OF inv this] have "Inv s2 w2" by blast
    then show "map Action (Functions (closingStack s2)) = map CloseFunc (completed w2) \<and>
        distinct (completed w2) \<and> dom (startedComponents s2) = set (completed w2)"
      unfolding Inv_def by blast
  qed
  from Service_Stop_drains [of I s1 w1]
  have 3: "Functions (closingStack (fst (Service_Stop I s1 w1))) = []" by auto
  from 1 2 3 show ?thesis by blast
qed

theorem C5_closing_stack_matches_started_witness:
  "Service_Start (failing 1) 3 (RegisterAll [(0, 1), (0, 2), (1, 2)] (NewService [0, 1, 2])) [] =
     Some (Some (Wrap (Wrap (Wrap (ComponentError ''refused'') ''failed to start component'')
                   ''failed to start component'') ''failed to start component''),
           diamond_failed, [StartCalled 2 None, StartCalled 1 (Some ''refused'')]) \<and>
   map Action (Functions (closingStack diamond_failed)) = [CloseFunc 2] \<and>
   dom (startedComponents diamond_failed) = {2} \<and>
   Functions (closingStack (fst (Service_Stop (failing 1) diamond_failed
       [StartCalled 2 None, StartCalled 1 (Some ''refused'')]))) = []"
proof -
  from C5_closing_stack_matches_started [OF diamond_failed_run] diamond_failed_run
  show ?thesis by simp
qed

section \<open>The stop of a service\<close>

text \<open>
  C3: after \<open>Service.Start\<close> on a service configured by registration, \<open>Service.Stop\<close>
  calls \<open>Stop\<close> of the components in the reverse of the order in which their \<open>Start\<close>
  calls returned nil, each once. So when \<open>Stop\<close> of a component is called, \<open>Stop\<close> of each
  of its dependencies has not been called yet and is called later. (This holds for
  whatever \<open>Service.Start\<close> returned, nil in particular.)
\<close>

theorem C3_stop_reverses_start:
  "Service_Start I n (RegisterAll es (NewService cs)) [] = Some (r, s1, w1) \<Longrightarrow>
   Service_Stop I s1 w1 = (s2, w2) \<Longrightarrow>
     stopped w2 = rev (completed w1) \<and>
     distinct (stopped w2) \<and>
     (\<forall>pre a post. stopped w2 = pre @ a # post \<longrightarrow>
        set (slice_at (dependantComponents (RegisterAll es (NewService cs))) a) \<subseteq> set post \<and>
        set (slice_at (dependantComponents (RegisterAll es (NewService cs))) a) \<inter> set (pre @ [a]) = {})"
proof -
  let ?s0 = "RegisterAll es (NewService cs)"
  let ?D = "slice_at (dependantComponents ?s0)"
  assume run: "Service_Start I n ?s0 [] = Some (r, s1, w1)"
    and stop: "Service_Stop I s1 w1 = (s2, w2)"
  note facts = Service_Start_configured [OF run]
  from facts(1,2) have ord: "ordered ?D (completed w1)" and dist: "distinct (completed w1)"
    and stack: "map Action (Functions (closingStack s1)) = map CloseFunc (completed w1)"
    by (simp_all add: Inv_def)
  from stack have "map (closer_component \<circ> Action) (Functions (closingStack s1)) =
      map closer_component (map CloseFunc (completed w1))" by (simp only: map_map [symmetric])
  then have comps: "map (closer_component \<circ> Action) (Functions (closingStack s1)) = completed w1"
    by (simp add: comp_def)
  from Service_Stop_drains [of I s1 w1] stop
  have "stopped w2 = stopped w1 @ rev (map (closer_component \<circ> Action) (Functions (closingStack s1)))"
    by auto
  with comps shape_stopped [OF facts(3)] have 1: "stopped w2 = rev (completed w1)" by simp
  with dist have 2: "distinct (stopped w2)" by simp
  have 3: "\<forall>pre a post. stopped w2 = pre @ a # post \<longrightarrow>
        set (?D a) \<subseteq> set post \<and> set (?D a) \<inter> set (pre @ [a]) = {}"
  proof (intro allI impI)
    fix pre a post assume eq: "stopped w2 = pre @ a # post"
    with 1 have "rev (rev (completed w1)) = rev (pre @ a # post)" by simp
    then have c: "completed w1 = rev post @ a # rev pre" by simp
    with ord have sub: "set (?D a) \<subseteq> set post" unfolding ordered_def by force
    from 2 eq have "set post \<inter> set (pre @ [a]) = {}" by auto
    with sub show "set (?D a) \<subseteq> set post \<and> set (?D a) \<inter> set (pre @ [a]) = {}" by blast
  qed
  from 1 2 3 show ?thesis by blast
qed

theorem C3_stop_reverses_start_witness:
  "Service_Start always_ok 3 (RegisterAll [(0, 1), (0, 2), (1, 2)] (NewService [0, 1, 2])) [] =
     Some (None, diamond_started, diamond_starts) \<and>
   stopped (snd (Service_Stop always_ok diamond_started diamond_starts)) = [0, 1, 2] \<and>
   rev (completed diamond_starts) = [0, 1, 2]"
proof -
  have stop: "Service_Stop always_ok diamond_started diamond_starts =
      (fst (Service_Stop always_ok diamond_started diamond_starts),
       snd (Service_Stop always_ok diamond_started diamond_starts))" by simp
  from C3_stop_reverses_start [OF diamond_started_run stop]
  have "stopped (snd (Service_Stop always_ok diamond_started diamond_starts)) =
      rev (completed diamond_starts)" by blast
  moreover have "rev (completed diamond_starts) = [0, 1, 2]" by (simp add: diamond_starts_def)
  ultimately show ?thesis using diamond_started_run by simp
qed

text \<open>
  C8: for every service and every behaviour of the components, \<open>Service.Stop\<close> empties
  the closing stack and calls \<open>Stop\<close> for every action that was on it, from the last
  pushed to the first, whether or not some of these calls return errors; every error
  returned is printed, in order, and nothing else is. \<open>Service.Stop\<close> returns no error:
  its result is the service and the events.
\<close>

theorem C8_stop_errors_do_not_end_the_drain:
  "\<exists>w'. Service_Stop I s w = (s\<lparr>closingStack := (closingStack s)\<lparr>Functions := []\<rparr>\<rparr>, w') \<and>
        stopped w' = stopped w @ rev (map (closer_component \<circ> Action) (Functions (closingStack s))) \<and>
        (\<exists>errs. stop_errors w' = stop_errors w @ errs \<and> printed w' = printed w @ errs)"
  using Service_Stop_drains [of I s w] by blast

theorem C8_stop_errors_do_not_end_the_drain_witness:
  "map (closer_component \<circ> Action) (Functions (closingStack diamond_started)) = [2, 1, 0] \<and>
   stopped (snd (Service_Stop (failing 1) diamond_started diamond_starts)) = [0, 1, 2] \<and>
   stop_errors (snd (Service_Stop (failing 1) diamond_started diamond_starts)) = [''stuck''] \<and>
   printed (snd (Service_Stop (failing 1) diamond_started diamond_starts)) = [''stuck''] \<and>
   Functions (closingStack (fst (Service_Stop (failing 1) diamond_started diamond_starts))) = []"
proof -
  have 1: "map (closer_component \<circ> Action) (Functions (closingStack diamond_started)) = [2, 1, 0]"
    by (simp add: diamond_started_def)
  from C8_stop_errors_do_not_end_the_drain [of "failing 1" diamond_started diamond_starts]
  obtain w' where w': "Service_Stop (failing 1) diamond_started diamond_starts =
      (diamond_started\<lparr>closingStack := (closingStack diamond_started)\<lparr>Functions := []\<rparr>\<rparr>, w')"
    and st: "stopped w' = stopped diamond_starts @
      rev (map (closer_component \<circ> Action) (Functions (closingStack diamond_started)))"
    by blast
  from st 1 have "stopped w' = [0, 1, 2]" by (simp add: diamond_starts_def)
  with w' have 2: "stopped (snd (Service_Stop (failing 1) diamond_started diamond_starts)) = [0, 1, 2]"
    and 3: "Functions (closingStack (fst (Service_Stop (failing 1) diamond_started diamond_starts))) = []"
    by simp_all
  have 4: "stop_errors (snd (Service_Stop (failing 1) diamond_started diamond_starts)) = [''stuck'']"
    "printed (snd (Service_Stop (failing 1) diamond_started diamond_starts)) = [''stuck'']"
    unfolding diamond_stop_failing by (simp_all add: diamond_starts_def)
  from 1 2 3 4 show ?thesis by blast
qed

section \<open>Termination\<close>

text \<open>
  C9: on a service whose dependency edges are acyclic (the map of dependencies has
  finitely many keys, as every map of the program has), \<open>Service.Start\<close> returns: some
  depth of nested calls suffices, and so does every greater one, with the same result.
  Registration does not enforce this: the edge from a component to itself is accepted,
  and so is every edge of the cycle through three or more distinct components; on these
  services \<open>Service.Start\<close> returns at no depth, whatever the components do.
\<close>

theorem C9_start_returns_when_acyclic:
  "(finite (dom (dependantComponents s)) \<longrightarrow> acyclic (depRel s) \<longrightarrow>
      (\<exists>n x. \<forall>m\<ge>n. Service_Start I m s w = Some x)) \<and>
   RegisterAll_results [(a, a)] (NewService [a]) = [None] \<and>
   (\<forall>k. Service_Start I k (RegisterAll [(a, a)] (NewService [a])) w = None) \<and>
   (\<forall>xs. distinct xs \<longrightarrow> 3 \<le> length xs \<longrightarrow>
      RegisterAll_results (cycle_edges xs) (NewService xs) = replicate (length xs) None \<and>
      (\<forall>k. Service_Start I k (RegisterAll (cycle_edges xs) (NewService xs)) w = None))"
proof -
  have 1: "\<exists>n x. \<forall>m\<ge>n. Service_Start I m s w = Some x"
    if "finite (dom (dependantComponents s))" "acyclic (depRel s)"
  proof -
    from Service_Start_returns [OF that] obtain n x where "Service_Start I n s w = Some x"
      by blast
    then have "\<forall>m\<ge>n. Service_Start I m s w = Some x"
      by (auto intro: more_fuel_Service_Start)
    then show ?thesis by blast
  qed
  have 2: "RegisterAll_results [(a, a)] (NewService [a]) = [None]"
    by (simp add: RegisterDependentComponents_def NewService_def)
  have 3: "\<forall>k. Service_Start I k (RegisterAll [(a, a)] (NewService [a])) w = None"
  proof -
    let ?s = "RegisterAll [(a, a)] (NewService [a])"
    have s: "?s = \<lparr>components = [a], dependantComponents = [a \<mapsto> [a]],
       startedComponents = Map.empty, closingStack = \<lparr>Functions = []\<rparr>\<rparr>"
      by (simp add: RegisterDependentComponents_def NewService_def NewStack_def slice_at_def)
    have "\<forall>x \<in> {a}. startedComponents ?s x = None \<and>
          (\<exists>d ds. checkForDependantComponents ?s x = d # ds \<and> d \<in> {a})"
      unfolding s by (simp add: checkForDependantComponents_def)
    then have "\<And>k w. startComponent I k a ?s w = None"
      by (rule call_never_returns) simp
    moreover have "components ?s = [a]" unfolding s by simp
    ultimately show ?thesis by (simp add: Service_Start_def)
  qed
  have 4: "\<forall>xs. distinct xs \<longrightarrow> 3 \<le> length xs \<longrightarrow>
      RegisterAll_results (cycle_edges xs) (NewService xs) = replicate (length xs) None \<and>
      (\<forall>k. Service_Start I k (RegisterAll (cycle_edges xs) (NewService xs)) w = None)"
    unfolding cycle_edges_def by (simp add: ring_registered(1) ring_never_returns)
  from 1 2 3 4 show ?thesis by blast
qed

theorem C9_start_returns_when_acyclic_witness:
  "finite (dom (dependantComponents diamond)) \<and> acyclic (depRel diamond) \<and>
   (\<exists>n x. \<forall>m\<ge>n. Service_Start always_ok m diamond [] = Some x) \<and>
   distinct [0::nat, 1, 2] \<and> 3 \<le> length [0::nat, 1, 2] \<and>
   cycle_edges [0::nat, 1, 2] = [(0, 1), (1, 2), (2, 0)] \<and>
   RegisterAll_results [(0, 1), (1, 2), (2, 0)] (NewService [0::nat, 1, 2]) = [None, None, None] \<and>
   (\<forall>k. Service_Start always_ok k (RegisterAll [(0, 1), (1, 2), (2, 0)] (NewService [0, 1, 2])) [] = None)"
proof -
  have f: "finite (dom (dependantComponents diamond))" by (simp add: diamond_eq)
  have d: "distinct [0::nat, 1, 2]" "3 \<le> length [0::nat, 1, 2]" by simp_all
  have c: "cycle_edges [0::nat, 1, 2] = [(0, 1), (1, 2), (2, 0)]" by (simp add: cycle_edges_def)
  note inst = C9_start_returns_when_acyclic
    [where s = diamond and I = always_ok and w = "[]" and a = 0]
  from inst f diamond_acyclic have 1: "\<exists>n x. \<forall>m\<ge>n. Service_Start always_ok m diamond [] = Some x"
    by blast
  from inst d have "RegisterAll_results (cycle_edges [0::nat, 1, 2]) (NewService [0, 1, 2]) =
      replicate (length [0::nat, 1, 2]) None \<and>
    (\<forall>k. Service_Start always_ok k (RegisterAll (cycle_edges [0, 1, 2]) (NewService [0, 1, 2])) [] = None)"
    by blast
  then have 2: "RegisterAll_results [(0, 1), (1, 2), (2, 0)] (NewService [0::nat, 1, 2]) =
      [None, None, None] \<and>
    (\<forall>k. Service_Start always_ok k (RegisterAll [(0, 1), (1, 2), (2, 0)] (NewService [0, 1, 2])) [] = None)"
    unfolding c by (simp add: eval_nat_numeral)
  from f diamond_acyclic 1 d c 2 show ?thesis by blast
qed

section \<open>Registration\<close>

text \<open>
  C6: for any two components \<open>a\<close> and \<open>b\<close>, once \<open>RegisterDependentComponents a b\<close> has
  returned nil, \<open>RegisterDependentComponents b a\<close> returns the dependency-cycle error and
  the service it leaves is the service it was given: no edge is added, none is altered.
\<close>

theorem C6_reverse_edge_rejected:
  "RegisterDependentComponents a b s = (None :: 'e error option, s') \<Longrightarrow>
   RegisterDependentComponents b a s' = (Some (dependencyCycleError :: 'e error), s')"
  by (auto simp: RegisterDependentComponents_def slice_at_def split: if_splits option.splits)

theorem C6_reverse_edge_rejected_witness:
  "RegisterDependentComponents (0::nat) 1 (NewService [0, 1]) =
     (None :: unit error option, (NewService [0, 1])\<lparr>dependantComponents := [0 \<mapsto> [1]]\<rparr>) \<and>
   RegisterDependentComponents (1::nat) 0 ((NewService [0, 1])\<lparr>dependantComponents := [0 \<mapsto> [1]]\<rparr>) =
     (Some (dependencyCycleError :: unit error),
      (NewService [0, 1])\<lparr>dependantComponents := [0 \<mapsto> [1]]\<rparr>)"
proof -
  have h: "RegisterDependentComponents (0::nat) 1 (NewService [0, 1]) =
     (None :: unit error option, (NewService [0, 1])\<lparr>dependantComponents := [0 \<mapsto> [1]]\<rparr>)"
    by (simp add: RegisterDependentComponents_def NewService_def slice_at_def)
  from h C6_reverse_edge_rejected [OF h] show ?thesis by simp
qed

text \<open>
  C7, as claimed for any two components: after \<open>RegisterDependentComponents a b\<close> has
  returned nil, the same call again returns the already-registered error. This fails when
  \<open>a\<close> and \<open>b\<close> are the same component: the check for the reverse edge comes first and
  finds the edge just added, so the second call returns the dependency-cycle error.
\<close>

theorem C7_same_component_counterexample:
  "RegisterDependentComponents (0::nat) 0 (NewService [0]) =
     (None :: unit error option, (NewService [0])\<lparr>dependantComponents := [0 \<mapsto> [0]]\<rparr>) \<and>
   fst (RegisterDependentComponents (0::nat) 0 ((NewService [0])\<lparr>dependantComponents := [0 \<mapsto> [0]]\<rparr>)) =
     Some (dependencyCycleError :: unit error) \<and>
   fst (RegisterDependentComponents (0::nat) 0 ((NewService [0])\<lparr>dependantComponents := [0 \<mapsto> [0]]\<rparr>)) \<noteq>
     Some (alreadyRegisteredError :: unit error)"
  by (simp add: RegisterDependentComponents_def NewService_def slice_at_def)

text \<open>
  C7, amended: for any two distinct components \<open>a\<close> and \<open>b\<close>, after
  \<open>RegisterDependentComponents a b\<close> has returned nil, the same call again returns the
  already-registered error (and leaves the service as it was).
\<close>

theorem C7_registered_twice:
  "a \<noteq> b \<Longrightarrow>
   RegisterDependentComponents a b s = (None :: 'e error option, s') \<Longrightarrow>
   RegisterDependentComponents a b s' = (Some (alreadyRegisteredError :: 'e error), s')"
  by (auto simp: RegisterDependentComponents_def slice_at_def split: if_splits option.splits)

theorem C7_registered_twice_witness:
  "(0::nat) \<noteq> 1 \<and>
   RegisterDependentComponents (0::nat) 1 (NewService [0, 1]) =
     (None :: unit error option, (NewService [0, 1])\<lparr>dependantComponents := [0 \<mapsto> [1]]\<rparr>) \<and>
   RegisterDependentComponents (0::nat) 1 ((NewService [0, 1])\<lparr>dependantComponents := [0 \<mapsto> [1]]\<rparr>) =
     (Some (alreadyRegisteredError :: unit error),
      (NewService [0, 1])\<lparr>dependantComponents := [0 \<mapsto> [1]]\<rparr>)"
proof -
  have d: "(0::nat) \<noteq> 1" by simp
  have h: "RegisterDependentComponents (0::nat) 1 (NewService [0, 1]) =
     (None :: unit error option, (NewService [0, 1])\<lparr>dependantComponents := [0 \<mapsto> [1]]\<rparr>)"
    by (simp add: RegisterDependentComponents_def NewService_def slice_at_def)
  from d h C7_registered_twice [OF d h] show ?thesis by simp
qed

text \<open>
  C10: when \<open>a\<close> is not yet among its own dependencies, \<open>RegisterDependentComponents a a\<close>
  returns nil and appends \<open>a\<close> to the dependency list of \<open>a\<close> (a cycle of one node);
  the same call again returns the dependency-cycle error, not the already-registered
  error, and changes nothing.
\<close>

theorem C10_self_edge:
  "a \<notin> set (slice_at (dependantComponents s) a) \<Longrightarrow>
   RegisterDependentComponents a a s =
     (None :: 'e error option,
      s\<lparr>dependantComponents :=
          (dependantComponents s)(a \<mapsto> slice_at (dependantComponents s) a @ [a])\<rparr>) \<and>
   RegisterDependentComponents a a
     (s\<lparr>dependantComponents :=
         (dependantComponents s)(a \<mapsto> slice_at (dependantComponents s) a @ [a])\<rparr>) =
     (Some (dependencyCycleError :: 'e error),
      s\<lparr>dependantComponents :=
          (dependantComponents s)(a \<mapsto> slice_at (dependantComponents s) a @ [a])\<rparr>)"
  by (auto simp: RegisterDependentComponents_def slice_at_def split: option.splits)

theorem C10_self_edge_witness:
  "(0::nat) \<notin> set (slice_at (dependantComponents (NewService [0])) 0) \<and>
   RegisterDependentComponents (0::nat) 0 (NewService [0]) =
     (None :: unit error option, (NewService [0])\<lparr>dependantComponents := [0 \<mapsto> [0]]\<rparr>) \<and>
   RegisterDependentComponents (0::nat) 0 ((NewService [0])\<lparr>dependantComponents := [0 \<mapsto> [0]]\<rparr>) =
     (Some (dependencyCycleError :: unit error),
      (NewService [0])\<lparr>dependantComponents := [0 \<mapsto> [0]]\<rparr>)"
proof -
  have h: "(0::nat) \<notin> set (slice_at (dependantComponents (NewService [0])) 0)"
    by (simp add: NewService_def slice_at_def)
  from h C10_self_edge [OF h, where ?'e = unit] show ?thesis
    by (simp add: NewService_def slice_at_def)
qed

end
